theory Spec2Isabelle
  imports Main "HOL-Library.Sublist"
begin

section \<open>Strings of the host language\<close>

text \<open>
  Source text is modelled as a list of code units below 256 (ASCII and Latin-1), which is
  where every token, quote, comment marker and brace of the scanned language lives.
  The helpers below are the string operations of the host language that the scanner and
  the editor commands call, with their behaviour at the borders (negative and
  out-of-range indices) written out.
\<close>

definition isSpace :: "char \<Rightarrow> bool" where
  \<comment> \<open>the class \<open>\s\<close> of the regular expressions, also what \<open>trim\<close> strips\<close>
  "isSpace c \<longleftrightarrow>
     c = CHR 0x09 \<or> c = CHR 0x0A \<or> c = CHR 0x0B \<or> c = CHR 0x0C \<or> c = CHR 0x0D
     \<or> c = CHR 0x20 \<or> c = CHR 0xA0"

definition isWordChar :: "char \<Rightarrow> bool" where
  \<comment> \<open>the class \<open>\w\<close>: letters, digits and the underscore\<close>
  "isWordChar c \<longleftrightarrow>
     (let n = (of_char c :: nat)
      in (48 \<le> n \<and> n \<le> 57) \<or> (65 \<le> n \<and> n \<le> 90) \<or> n = 95 \<or> (97 \<le> n \<and> n \<le> 122))"

definition toLowerChar :: "char \<Rightarrow> char" where
  "toLowerChar c =
     (let n = (of_char c :: nat)
      in if (65 \<le> n \<and> n \<le> 90) \<or> (192 \<le> n \<and> n \<le> 222 \<and> n \<noteq> 215)
         then char_of (n + 32) else c)"

definition toLowerCase :: "string \<Rightarrow> string" where
  "toLowerCase s = map toLowerChar s"

definition trim :: "string \<Rightarrow> string" where
  "trim s = rev (dropWhile isSpace (rev (dropWhile isSpace s)))"

definition startsWith :: "string \<Rightarrow> string \<Rightarrow> bool" where
  "startsWith s p \<longleftrightarrow> prefix p s"

definition endsWith :: "string \<Rightarrow> string \<Rightarrow> bool" where
  "endsWith s t \<longleftrightarrow> suffix t s"

definition includesStr :: "string \<Rightarrow> string \<Rightarrow> bool" where
  "includesStr s t \<longleftrightarrow> sublist t s"

fun indexOfLoop :: "string \<Rightarrow> nat \<Rightarrow> string \<Rightarrow> int" where
  "indexOfLoop t i [] = (if t = [] then int i else - 1)"
| "indexOfLoop t i (c # cs) =
     (if prefix t (c # cs) then int i else indexOfLoop t (Suc i) cs)"

definition indexOf :: "string \<Rightarrow> string \<Rightarrow> int \<Rightarrow> int" where
  \<comment> \<open>\<open>s.indexOf(t, pos)\<close>: the first index at or after \<open>pos\<close> (clamped to the string)
      where \<open>t\<close> occurs, or \<open>-1\<close>\<close>
  "indexOf s t pos =
     (let start = min (nat (max 0 pos)) (length s)
      in indexOfLoop t start (drop start s))"

definition slice :: "string \<Rightarrow> int \<Rightarrow> int \<Rightarrow> string" where
  \<comment> \<open>\<open>s.slice(from, to)\<close>: a negative index counts from the end\<close>
  "slice s from to =
     (let len = int (length s);
          a = (if from < 0 then max (len + from) 0 else min from len);
          b = (if to < 0 then max (len + to) 0 else min to len)
      in take (nat (b - a)) (drop (nat a) s))"

definition sliceFrom :: "string \<Rightarrow> int \<Rightarrow> string" where
  "sliceFrom s from = slice s from (int (length s))"

function showNat :: "nat \<Rightarrow> string" where
  "showNat n = (if n < 10 then [''0123456789'' ! n]
                else showNat (n div 10) @ [''0123456789'' ! (n mod 10)])"
  by pat_completeness auto
termination
  by (relation "measure id") auto

definition showInt :: "int \<Rightarrow> string" where
  "showInt i = (if i < 0 then CHR ''-'' # showNat (nat (- i)) else showNat (nat i))"

section \<open>The data model of the scanner\<close>

datatype StatementType =
    T_var_dump | T_print_r | T_echo | T_die | T_exit | T_error_log | T_debug_backtrace
  | T_print | T_var_export | T_dump | T_dd | T_trigger_error | T_user_error | T_printf
  | T_xdebug_var_dump | T_xdebug_debug_zval | T_xdebug_break

datatype Severity = Info | Warning | Error

record DebugStatement =
  stmtId :: string
  filePath :: string
  relativePath :: string
  lineNumber :: nat
  column :: int
  content :: string
  stmtContext :: string
  stmtType :: StatementType
  severity :: Severity

section \<open>Classification of a text fragment\<close>

definition afterToken :: "string \<Rightarrow> string \<Rightarrow> string option" where
  \<comment> \<open>\<open>^\s*tok\<close>: what follows the token, when the text starts with it after blanks\<close>
  "afterToken tok t =
     (let u = dropWhile isSpace t
      in if prefix tok u then Some (drop (length tok) u) else None)"

definition callOf :: "string \<Rightarrow> string \<Rightarrow> bool" where
  \<comment> \<open>\<open>^\s*tok\s*\(\<close>\<close>
  "callOf tok t =
     (case afterToken tok t of
        None \<Rightarrow> False
      | Some r \<Rightarrow> prefix ''('' (dropWhile isSpace r))"

definition keywordSpace :: "string \<Rightarrow> string \<Rightarrow> bool" where
  \<comment> \<open>\<open>^\s*tok\s+\<close>\<close>
  "keywordSpace tok t =
     (case afterToken tok t of
        None \<Rightarrow> False
      | Some r \<Rightarrow> (case r of [] \<Rightarrow> False | c # _ \<Rightarrow> isSpace c))"

definition wordOf :: "string \<Rightarrow> string \<Rightarrow> bool" where
  \<comment> \<open>\<open>^\s*tok\b\<close>, for a token that ends in a word character\<close>
  "wordOf tok t =
     (case afterToken tok t of
        None \<Rightarrow> False
      | Some r \<Rightarrow> (case r of [] \<Rightarrow> True | c # _ \<Rightarrow> \<not> isWordChar c))"

definition matchTypeFromText :: "string \<Rightarrow> StatementType option" where
  "matchTypeFromText txt =
     (let t = toLowerCase txt in
      if callOf ''dd'' t then Some T_dd
      else if callOf ''var_dump'' t then Some T_var_dump
      else if callOf ''print_r'' t then Some T_print_r
      else if keywordSpace ''echo'' t then Some T_echo
      else if keywordSpace ''print'' t then Some T_print
      else if callOf ''var_export'' t then Some T_var_export
      else if callOf ''printf'' t then Some T_printf
      else if wordOf ''die'' t \<or> wordOf ''exit'' t
        then (if includesStr t ''exit'' then Some T_exit else Some T_die)
      else if callOf ''error_log'' t then Some T_error_log
      else if callOf ''trigger_error'' t then Some T_trigger_error
      else if callOf ''user_error'' t then Some T_user_error
      else if callOf ''debug_backtrace'' t then Some T_debug_backtrace
      else if callOf ''dump'' t then Some T_dump
      else if callOf ''xdebug_var_dump'' t then Some T_xdebug_var_dump
      else if callOf ''xdebug_debug_zval'' t then Some T_xdebug_debug_zval
      else if wordOf ''xdebug_break'' t then Some T_xdebug_break
      else None)"

definition getStatementType :: "string \<Rightarrow> StatementType" where
  "getStatementType c = (case matchTypeFromText c of Some ty \<Rightarrow> ty | None \<Rightarrow> T_var_dump)"

definition quickCheck :: "string \<Rightarrow> bool" where
  "quickCheck line \<longleftrightarrow> matchTypeFromText line \<noteq> None"

definition getStatementSeverity :: "string \<Rightarrow> Severity" where
  "getStatementSeverity c =
     (let lower = toLowerCase c in
      if includesStr lower ''die'' \<or> includesStr lower ''exit'' \<or> includesStr lower ''dd'' then Error
      else if includesStr lower ''error_log'' \<or> includesStr lower ''trigger_error''
              \<or> includesStr lower ''user_error'' then Warning
      else Info)"

definition tokenOf :: "StatementType \<Rightarrow> string" where
  \<comment> \<open>the table \<open>tokenMap\<close>: the text of each type's token\<close>
  "tokenOf ty =
     (case ty of
        T_var_dump \<Rightarrow> ''var_dump'' | T_print_r \<Rightarrow> ''print_r'' | T_echo \<Rightarrow> ''echo''
      | T_print \<Rightarrow> ''print'' | T_var_export \<Rightarrow> ''var_export'' | T_printf \<Rightarrow> ''printf''
      | T_die \<Rightarrow> ''die'' | T_exit \<Rightarrow> ''exit'' | T_error_log \<Rightarrow> ''error_log''
      | T_trigger_error \<Rightarrow> ''trigger_error'' | T_user_error \<Rightarrow> ''user_error''
      | T_debug_backtrace \<Rightarrow> ''debug_backtrace'' | T_dump \<Rightarrow> ''dump'' | T_dd \<Rightarrow> ''dd''
      | T_xdebug_var_dump \<Rightarrow> ''xdebug_var_dump''
      | T_xdebug_debug_zval \<Rightarrow> ''xdebug_debug_zval''
      | T_xdebug_break \<Rightarrow> ''xdebug_break'')"

definition createDebugStatement ::
  "string \<Rightarrow> string \<Rightarrow> nat \<Rightarrow> int \<Rightarrow> string \<Rightarrow> string \<Rightarrow> StatementType \<Rightarrow> Severity
   \<Rightarrow> DebugStatement" where
  "createDebugStatement fp rel ln col c ctx ty sev =
     \<lparr> stmtId = fp @ '':'' @ showNat ln @ '':'' @ showInt col,
       filePath = fp, relativePath = rel, lineNumber = ln, column = col,
       content = trim c, stmtContext = trim ctx, stmtType = ty, severity = sev \<rparr>"

section \<open>Scanning one line\<close>

text \<open>
  The state that \<open>scanFile\<close> keeps from one line to the next: whether the line starts inside
  a block comment, and whether (and with which quote) it starts inside a string literal.
\<close>

record LineState =
  inBlockComment :: bool
  inString :: bool
  stringDelimiter :: "char option"

definition initialLineState :: LineState where
  "initialLineState = \<lparr> inBlockComment = False, inString = False, stringDelimiter = None \<rparr>"

text \<open>
  The sanitizer loop over the characters of a line: string contents, quotes and a trailing
  line comment are dropped, code characters are kept. It returns the kept text together
  with the string state at the end of the line. The escape flag \<open>esc\<close> is the variable
  \<open>lastWasBackslash\<close>, which the caller resets at the start of every line.
\<close>

fun sanitizeLoop :: "bool \<Rightarrow> char option \<Rightarrow> bool \<Rightarrow> string \<Rightarrow> string \<times> bool \<times> char option" where
  "sanitizeLoop inStr delim esc [] = ([], inStr, delim)"
| "sanitizeLoop inStr delim esc (ch # cs) =
     (if inStr then
        (if ch = CHR 0x5C then sanitizeLoop True delim (\<not> esc) cs
         else if Some ch = delim \<and> \<not> esc then sanitizeLoop False None False cs
         else sanitizeLoop True delim False cs)
      else if ch = CHR 0x22 \<or> ch = CHR 0x27 then sanitizeLoop True (Some ch) False cs
      else if ch = CHR ''/'' \<and> (case cs of [] \<Rightarrow> False | c2 # _ \<Rightarrow> c2 = CHR ''/'')
        then ([], False, delim)
      else if ch = CHR ''#'' then ([], False, delim)
      else (case sanitizeLoop False delim esc cs of (out, s, d) \<Rightarrow> (ch # out, s, d)))"

record Segment =
  segText :: string
  startSan :: nat
  endSan :: nat

text \<open>
  The split of the sanitized line at every semicolon: \<open>segStart\<close> and \<open>k\<close> are the loop's
  variables, \<open>acc\<close> is the text from \<open>segStart\<close> up to \<open>k\<close>. What follows the last semicolon is
  dropped.
\<close>

fun splitSegments :: "nat \<Rightarrow> nat \<Rightarrow> string \<Rightarrow> string \<Rightarrow> Segment list" where
  "splitSegments segStart k acc [] = []"
| "splitSegments segStart k acc (c # cs) =
     (if c = CHR '';'' then
        (let t = acc @ [c] in
           (if 0 < length (trim t)
            then [\<lparr> segText = t, startSan = segStart, endSan = k \<rparr>] else [])
           @ splitSegments (Suc k) (Suc k) [] cs)
      else splitSegments segStart (Suc k) (acc @ [c]) cs)"

definition segmentsOf :: "string \<Rightarrow> Segment list" where
  "segmentsOf sanitized = splitSegments 0 0 [] sanitized"

definition isDebugSegment :: "string \<Rightarrow> bool" where
  "isDebugSegment txt \<longleftrightarrow> matchTypeFromText txt \<noteq> None"

definition exitOnlyTail :: "string \<Rightarrow> bool" where
  \<comment> \<open>\<open>\s*(?:\([^)]*\))?\s*;\s*$\<close>\<close>
  "exitOnlyTail r =
     (let r1 = dropWhile isSpace r;
          r2 = (case r1 of
                  [] \<Rightarrow> r1
                | c # rest \<Rightarrow>
                    if c = CHR ''('' \<and> CHR '')'' \<in> set rest
                    then drop 1 (dropWhile (\<lambda>x. x \<noteq> CHR '')'') rest) else r1);
          r3 = dropWhile isSpace r2
      in case r3 of [] \<Rightarrow> False | c # rest \<Rightarrow> c = CHR '';'' \<and> dropWhile isSpace rest = [])"

definition isExitOnlySegment :: "string \<Rightarrow> bool" where
  \<comment> \<open>\<open>^\s*(?:exit|die)\s*(?:\([^)]*\))?\s*;\s*$\<close> on the lowered, trimmed text\<close>
  "isExitOnlySegment txt =
     (let t = trim (toLowerCase txt) in
      case afterToken ''exit'' t of
        Some r \<Rightarrow> exitOnlyTail r
      | None \<Rightarrow> (case afterToken ''die'' t of Some r \<Rightarrow> exitOnlyTail r | None \<Rightarrow> False))"

text \<open>
  \<open>findEnd\<close>: from index \<open>from\<close> of the original line, the index just after the first
  semicolon that is not inside a string literal, or the length of the line.
\<close>

fun findEndLoop :: "nat \<Rightarrow> bool \<Rightarrow> char option \<Rightarrow> bool \<Rightarrow> string \<Rightarrow> nat" where
  "findEndLoop i inStr q esc [] = i"
| "findEndLoop i inStr q esc (ch # cs) =
     (if inStr then
        (if ch = CHR 0x5C then findEndLoop (Suc i) True q (\<not> esc) cs
         else if Some ch = q \<and> \<not> esc then findEndLoop (Suc i) False None False cs
         else findEndLoop (Suc i) True q False cs)
      else if ch = CHR 0x22 \<or> ch = CHR 0x27 then findEndLoop (Suc i) True (Some ch) False cs
      else if ch = CHR '';'' then Suc i
      else findEndLoop (Suc i) False q esc cs)"

definition findEnd :: "string \<Rightarrow> int \<Rightarrow> int" where
  "findEnd txt from =
     (let i = nat (max 0 from)
      in if length txt \<le> i then int (length txt)
         else int (findEndLoop i False None False (drop i txt)))"

definition wordAt :: "string \<Rightarrow> string \<Rightarrow> bool" where
  \<comment> \<open>the word \<open>tok\<close> starts here and a word boundary follows it\<close>
  "wordAt tok s \<longleftrightarrow>
     prefix tok s \<and> (case drop (length tok) s of [] \<Rightarrow> True | c # _ \<Rightarrow> \<not> isWordChar c)"

fun searchExitDieLoop :: "bool \<Rightarrow> nat \<Rightarrow> string \<Rightarrow> int" where
  "searchExitDieLoop prevWord i [] = - 1"
| "searchExitDieLoop prevWord i (c # cs) =
     (if \<not> prevWord \<and> (wordAt ''exit'' (c # cs) \<or> wordAt ''die'' (c # cs)) then int i
      else searchExitDieLoop (isWordChar c) (Suc i) cs)"

definition searchExitDie :: "string \<Rightarrow> int" where
  \<comment> \<open>\<open>s.search(/\b(?:exit|die)\b/)\<close>, case sensitive\<close>
  "searchExitDie s = searchExitDieLoop False 0 s"

definition approxOf :: "nat \<Rightarrow> nat \<Rightarrow> int" where
  \<comment> \<open>\<open>mapIdx[startSan] ?? 0\<close>, where \<open>mapIdx\<close> is the identity on the indices of the
      sanitized line\<close>
  "approxOf sanLen start = (if start < sanLen then int start else 0)"

definition locateToken :: "string \<Rightarrow> string \<Rightarrow> int \<Rightarrow> int" where
  "locateToken originalLine token approx =
     (let startTok = (if token \<noteq> [] then indexOf originalLine token approx else approx)
      in if startTok < 0 \<and> token \<noteq> [] then indexOf originalLine token 0 else startTok)"

definition combinedStatement ::
  "string \<Rightarrow> string \<Rightarrow> nat \<Rightarrow> string \<Rightarrow> nat \<Rightarrow> Segment \<Rightarrow> DebugStatement" where
  "combinedStatement fp rel ln originalLine sanLen seg =
     (let ty = getStatementType (segText seg);
          startTok = locateToken originalLine (tokenOf ty) (approxOf sanLen (startSan seg));
          end1 = findEnd originalLine startTok;
          exitIdxLocal = searchExitDie (sliceFrom originalLine end1);
          finalEnd = (if 0 \<le> exitIdxLocal then findEnd originalLine (end1 + exitIdxLocal)
                      else end1);
          combined = slice originalLine startTok finalEnd
      in createDebugStatement fp rel ln startTok combined originalLine ty
           (getStatementSeverity combined))"

definition singleStatement ::
  "string \<Rightarrow> string \<Rightarrow> nat \<Rightarrow> string \<Rightarrow> nat \<Rightarrow> Segment \<Rightarrow> DebugStatement list" where
  "singleStatement fp rel ln originalLine sanLen seg =
     (let segType = getStatementType (segText seg);
          startIdx = locateToken originalLine (tokenOf segType) (approxOf sanLen (startSan seg));
          endIdx = findEnd originalLine startIdx;
          segOrig = slice originalLine startIdx endIdx
      in if matchTypeFromText (segText seg) \<noteq> None
         then [createDebugStatement fp rel ln startIdx segOrig originalLine segType
                 (getStatementSeverity segOrig)]
         else [])"

text \<open>
  The loop over the segments of a line: a debug segment followed by an exit-only segment
  gives one combined statement and skips the follower.
\<close>

fun processSegments ::
  "string \<Rightarrow> string \<Rightarrow> nat \<Rightarrow> string \<Rightarrow> nat \<Rightarrow> Segment list \<Rightarrow> DebugStatement list" where
  "processSegments fp rel ln originalLine sanLen [] = []"
| "processSegments fp rel ln originalLine sanLen [seg] =
     singleStatement fp rel ln originalLine sanLen seg"
| "processSegments fp rel ln originalLine sanLen (seg # nxt # rest) =
     (if isDebugSegment (segText seg) \<and> isExitOnlySegment (segText nxt)
      then combinedStatement fp rel ln originalLine sanLen seg
           # processSegments fp rel ln originalLine sanLen rest
      else singleStatement fp rel ln originalLine sanLen seg
           @ processSegments fp rel ln originalLine sanLen (nxt # rest))"

text \<open>
  One iteration of the loop over the lines of a file: the statements of the line and the
  state for the next line. Every \<open>continue\<close> of the source is a branch that returns no
  statement.
\<close>

definition scanLine ::
  "string \<Rightarrow> string \<Rightarrow> LineState \<Rightarrow> nat \<Rightarrow> string \<Rightarrow> DebugStatement list \<times> LineState" where
  "scanLine fp rel st ln originalLine =
     (let endIdx = indexOf originalLine ''*/'' 0 in
      if inBlockComment st \<and> endIdx = - 1 then ([], st)
      else
        let lineToScan = (if inBlockComment st then sliceFrom originalLine (endIdx + 2)
                          else originalLine);
            st1 = st \<lparr> inBlockComment := False \<rparr>;
            trimmed = trim lineToScan
        in if startsWith trimmed ''//'' \<or> startsWith trimmed ''#'' then ([], st1)
           else
             let startBlock = indexOf lineToScan ''/*'' 0;
                 endBlock = indexOf lineToScan ''*/'' (startBlock + 2);
                 lineToScan2 =
                   (if startBlock \<noteq> - 1 then
                      (if endBlock \<noteq> - 1
                       then slice lineToScan 0 startBlock @ sliceFrom lineToScan (endBlock + 2)
                       else slice lineToScan 0 startBlock)
                    else lineToScan);
                 st2 = (if startBlock \<noteq> - 1 \<and> endBlock = - 1
                        then st1 \<lparr> inBlockComment := True \<rparr> else st1)
             in case sanitizeLoop (inString st2) (stringDelimiter st2) False lineToScan2 of
                  (sanitized, inStr, delim) \<Rightarrow>
                    let st3 = st2 \<lparr> inString := inStr, stringDelimiter := delim \<rparr>
                    in if \<not> quickCheck sanitized then ([], st3)
                       else (processSegments fp rel ln originalLine (length sanitized)
                               (segmentsOf sanitized), st3))"


fun scanLines ::
  "string \<Rightarrow> string \<Rightarrow> LineState \<Rightarrow> nat \<Rightarrow> string list \<Rightarrow> DebugStatement list" where
  "scanLines fp rel st i [] = []"
| "scanLines fp rel st i (l # ls) =
     (case scanLine fp rel st (Suc i) l of
        (out, st') \<Rightarrow> out @ scanLines fp rel st' (Suc i) ls)"

text \<open>The state in which the loop leaves a run of lines.\<close>

fun lineStateAfter :: "string \<Rightarrow> string \<Rightarrow> LineState \<Rightarrow> nat \<Rightarrow> string list \<Rightarrow> LineState" where
  "lineStateAfter fp rel st i [] = st"
| "lineStateAfter fp rel st i (l # ls) =
     lineStateAfter fp rel (snd (scanLine fp rel st (Suc i) l)) (Suc i) ls"

fun splitLines :: "string \<Rightarrow> string \<Rightarrow> string list" where
  \<comment> \<open>\<open>content.split('\n')\<close>, with the line being read in the first argument\<close>
  "splitLines acc [] = [acc]"
| "splitLines acc (c # cs) =
     (if c = CHR 0x0A then acc # splitLines [] cs else splitLines (acc @ [c]) cs)"

definition scanContent :: "string \<Rightarrow> string \<Rightarrow> string \<Rightarrow> DebugStatement list" where
  \<comment> \<open>the part of \<open>scanFile\<close> that works on the text that was read\<close>
  "scanContent fp rel txt = scanLines fp rel initialLineState 0 (splitLines [] txt)"

section \<open>The scan engine\<close>

datatype ScanFailure = FileTooLarge nat | ReadError | NoWorkspace

text \<open>A per-file failure as the batch scan records it (the time stamp is left out).\<close>

record ScanError =
  errFilePath :: string
  errCause :: ScanFailure

record ScanResult =
  statements :: "DebugStatement list"
  scannedFiles :: nat
  totalStatements :: nat
  errors :: "ScanError list"
  scanTime :: nat

record FileInfo =
  fileSize :: nat
  mtime :: int
  fileText :: "string option"

text \<open>
  An entry of a directory listing: a file, a directory with its own listing (\<open>None\<close> when
  the directory cannot be read), or something else.
\<close>

datatype DirEntry =
    FileEntry string
  | DirectoryEntry string "DirEntry list option"
  | OtherEntry string

text \<open>
  What the engine reads from its surroundings: the files (a path without an entry cannot
  be stat'ed, an entry without text cannot be read), the workspace folders and the
  listing of each of them, the compiled exclude rules, the path relative to the workspace
  root, the comparison of two paths that the host's \<open>localeCompare\<close> makes, and the time
  that a scan takes.
\<close>

record Env =
  files :: "string \<Rightarrow> FileInfo option"
  workspaceFolders :: "string list"
  readdir :: "string \<Rightarrow> DirEntry list option"
  isExcluded :: "string \<Rightarrow> bool"
  relativeTo :: "string \<Rightarrow> string"
  localeCompare :: "string \<Rightarrow> string \<Rightarrow> int"
  elapsed :: nat

record CacheEntry =
  cachedMtime :: int
  cachedSize :: nat
  cachedHash :: "nat \<times> int"

record ScannerState =
  scanInProgress :: bool
  fileCache :: "string \<Rightarrow> CacheEntry option"
  scanResults :: "string \<Rightarrow> DebugStatement list option"
  maxFileSize :: nat
  watching :: bool
  delivered :: "ScanResult list"

definition getFileHash :: "FileInfo \<Rightarrow> nat \<times> int" where
  \<comment> \<open>the text \<open>size-mtime\<close>, kept as the pair it is made of\<close>
  "getFileHash f = (fileSize f, mtime f)"

definition scanFile ::
  "Env \<Rightarrow> ScannerState \<Rightarrow> string \<Rightarrow> (ScanFailure + DebugStatement list) \<times> ScannerState" where
  "scanFile env st fp =
     (case files env fp of
        None \<Rightarrow> (Inl ReadError, st)
      | Some f \<Rightarrow>
          if maxFileSize st < fileSize f then (Inl (FileTooLarge (fileSize f)), st)
          else
            let fileHash = getFileHash f in
            if (case fileCache st fp of None \<Rightarrow> False | Some c \<Rightarrow> cachedHash c = fileHash)
            then (Inr (case scanResults st fp of None \<Rightarrow> [] | Some r \<Rightarrow> r), st)
            else
              (case fileText f of
                 None \<Rightarrow> (Inl ReadError, st)
               | Some txt \<Rightarrow>
                   let stmts = scanContent fp (relativeTo env fp) txt
                   in (Inr stmts,
                       st \<lparr> fileCache := (fileCache st)
                              (fp \<mapsto> \<lparr> cachedMtime = mtime f, cachedSize = fileSize f,
                                       cachedHash = fileHash \<rparr>),
                            scanResults := (scanResults st)(fp \<mapsto> stmts) \<rparr>)))"

definition shouldSkipDirectory :: "string \<Rightarrow> bool" where
  "shouldSkipDirectory dirName \<longleftrightarrow>
     toLowerCase dirName \<in> set
       [''vendor'', ''node_modules'', ''.git'', ''.svn'', ''.hg'',
        ''cache'', ''temp'', ''tmp'', ''logs'', ''storage'', ''.history'',
        ''tests'', ''test'', ''spec'', ''docs'', ''documentation'']"

definition joinPath :: "string \<Rightarrow> string \<Rightarrow> string" where
  \<comment> \<open>\<open>path.join\<close> of a directory path (with no separator at its end) and a name\<close>
  "joinPath dirPath name = dirPath @ ''/'' @ name"

text \<open>
  The walk of a directory, entry by entry. A directory that cannot be read gives no file
  (the source records the failure in a list that nothing reads).
\<close>

fun collectEntry :: "(string \<Rightarrow> bool) \<Rightarrow> string \<Rightarrow> DirEntry \<Rightarrow> string list" where
  "collectEntry excluded dirPath (DirectoryEntry name sub) =
     (if excluded (joinPath dirPath name) \<or> shouldSkipDirectory name then []
      else (case sub of
              None \<Rightarrow> []
            | Some entries \<Rightarrow>
                concat (map (collectEntry excluded (joinPath dirPath name)) entries)))"
| "collectEntry excluded dirPath (FileEntry name) =
     (if endsWith name ''.php''
      then (if excluded (joinPath dirPath name) then [] else [joinPath dirPath name])
      else [])"
| "collectEntry excluded dirPath (OtherEntry name) = []"

definition collectFiles :: "Env \<Rightarrow> string \<Rightarrow> string list" where
  "collectFiles env dirPath =
     (case readdir env dirPath of
        None \<Rightarrow> []
      | Some entries \<Rightarrow> concat (map (collectEntry (isExcluded env) dirPath) entries))"

definition batchSize :: nat where
  "batchSize = 50"

function batches :: "'a list \<Rightarrow> 'a list list" where
  "batches xs = (if xs = [] then [] else take batchSize xs # batches (drop batchSize xs))"
  by pat_completeness auto
termination
  by (relation "measure length") (auto simp: batchSize_def)

declare batches.simps [simp del]

text \<open>
  The comparison function handed to \<open>sort\<close>, and \<open>sort\<close> itself as the stable sort that
  the host language specifies: each element is put behind the elements that do not
  compare greater.
\<close>

definition compareStatements :: "Env \<Rightarrow> DebugStatement \<Rightarrow> DebugStatement \<Rightarrow> int" where
  "compareStatements env a b =
     (let c = localeCompare env (filePath a) (filePath b)
      in if c \<noteq> 0 then c else int (lineNumber a) - int (lineNumber b))"

fun insertSorted :: "('a \<Rightarrow> 'a \<Rightarrow> int) \<Rightarrow> 'a \<Rightarrow> 'a list \<Rightarrow> 'a list" where
  "insertSorted cmp x [] = [x]"
| "insertSorted cmp x (y # ys) =
     (if cmp x y < 0 then x # y # ys else y # insertSorted cmp x ys)"

definition sortWith :: "('a \<Rightarrow> 'a \<Rightarrow> int) \<Rightarrow> 'a list \<Rightarrow> 'a list" where
  "sortWith cmp xs = foldl (\<lambda>acc x. insertSorted cmp x acc) [] xs"

definition emptyScanResult :: ScanResult where
  "emptyScanResult =
     \<lparr> statements = [], scannedFiles = 0, totalStatements = 0, errors = [], scanTime = 0 \<rparr>"

definition finishScan :: "ScannerState \<Rightarrow> ScanResult \<Rightarrow> ScannerState" where
  \<comment> \<open>the callback \<open>onScanComplete\<close>, when one is registered, and the \<open>finally\<close> block\<close>
  "finishScan st result =
     st \<lparr> scanInProgress := False,
          delivered := (if watching st then delivered st @ [result] else delivered st) \<rparr>"

text \<open>
  A batch of \<open>scanFiles\<close>: a failing file is recorded and gives no statement. The files of
  a batch are taken in their order.
\<close>

fun scanBatchCatching ::
  "Env \<Rightarrow> ScannerState \<Rightarrow> string list
   \<Rightarrow> (DebugStatement list list \<times> ScanError list) \<times> ScannerState" where
  "scanBatchCatching env st [] = (([], []), st)"
| "scanBatchCatching env st (fp # fps) =
     (case scanFile env st fp of
        (r, st1) \<Rightarrow>
          (case scanBatchCatching env st1 fps of
             ((outs, errs), st2) \<Rightarrow>
               (case r of
                  Inr stmts \<Rightarrow> ((stmts # outs, errs), st2)
                | Inl e \<Rightarrow> (([] # outs, \<lparr> errFilePath = fp, errCause = e \<rparr> # errs), st2))))"

fun scanFilesLoop ::
  "Env \<Rightarrow> ScannerState \<Rightarrow> string list list
   \<Rightarrow> (DebugStatement list \<times> ScanError list \<times> nat) \<times> ScannerState" where
  "scanFilesLoop env st [] = (([], [], 0), st)"
| "scanFilesLoop env st (b # bs) =
     (case scanBatchCatching env st b of
        ((outs, errs), st1) \<Rightarrow>
          (case scanFilesLoop env st1 bs of
             ((stmts, errs', n), st2) \<Rightarrow>
               ((concat outs @ stmts, errs @ errs', length outs + n), st2)))"

definition scanFiles :: "Env \<Rightarrow> ScannerState \<Rightarrow> string list \<Rightarrow> ScanResult \<times> ScannerState" where
  "scanFiles env st filePaths =
     (if scanInProgress st then (emptyScanResult, st)
      else
        let targets = filter (\<lambda>p. \<not> isExcluded env p)
                        (filter (\<lambda>p. endsWith (toLowerCase p) ''.php'') filePaths)
        in case scanFilesLoop env (st \<lparr> scanInProgress := True \<rparr>) (batches targets) of
             ((stmts, errs, n), st1) \<Rightarrow>
               let result = \<lparr> statements = sortWith (compareStatements env) stmts,
                              scannedFiles = n, totalStatements = length stmts,
                              errors = errs, scanTime = elapsed env \<rparr>
               in (result, finishScan st1 result))"

text \<open>
  A batch of \<open>scanWorkspace\<close>: every file of the batch is scanned, and the batch fails when
  one of them does.
\<close>

fun scanBatch ::
  "Env \<Rightarrow> ScannerState \<Rightarrow> string list
   \<Rightarrow> (ScanFailure + DebugStatement list list) \<times> ScannerState" where
  "scanBatch env st [] = (Inr [], st)"
| "scanBatch env st (fp # fps) =
     (case scanFile env st fp of
        (r, st1) \<Rightarrow>
          (case scanBatch env st1 fps of
             (rs, st2) \<Rightarrow>
               (case r of
                  Inl e \<Rightarrow> (Inl e, st2)
                | Inr stmts \<Rightarrow>
                    (case rs of
                       Inl e \<Rightarrow> (Inl e, st2)
                     | Inr outs \<Rightarrow> (Inr (stmts # outs), st2)))))"

fun scanWorkspaceLoop ::
  "Env \<Rightarrow> ScannerState \<Rightarrow> string list list
   \<Rightarrow> (ScanFailure + DebugStatement list \<times> nat) \<times> ScannerState" where
  "scanWorkspaceLoop env st [] = (Inr ([], 0), st)"
| "scanWorkspaceLoop env st (b # bs) =
     (case scanBatch env st b of
        (Inl e, st1) \<Rightarrow> (Inl e, st1)
      | (Inr outs, st1) \<Rightarrow>
          (case scanWorkspaceLoop env st1 bs of
             (Inl e, st2) \<Rightarrow> (Inl e, st2)
           | (Inr (stmts, n), st2) \<Rightarrow> (Inr (concat outs @ stmts, length outs + n), st2)))"

definition scanWorkspace ::
  "Env \<Rightarrow> ScannerState \<Rightarrow> (ScanFailure + ScanResult) \<times> ScannerState" where
  "scanWorkspace env st =
     (if scanInProgress st then (Inr emptyScanResult, st)
      else if workspaceFolders env = [] then (Inl NoWorkspace, st \<lparr> scanInProgress := False \<rparr>)
      else
        let filePaths = concat (map (collectFiles env) (workspaceFolders env))
        in case scanWorkspaceLoop env (st \<lparr> scanInProgress := True \<rparr>) (batches filePaths) of
             (Inl e, st1) \<Rightarrow> (Inl e, st1 \<lparr> scanInProgress := False \<rparr>)
           | (Inr (stmts, n), st1) \<Rightarrow>
               let result = \<lparr> statements = sortWith (compareStatements env) stmts,
                              scannedFiles = n, totalStatements = length stmts,
                              errors = [], scanTime = elapsed env \<rparr>
               in (Inr result, finishScan st1 result))"

text \<open>
  The two kinds of batch differ only in what they make of a failure. \<open>scanEach\<close> is what
  they share, the scan of the files of a list one after the other with the result of
  each; \<open>caught\<close> is what a batch of \<open>scanFiles\<close> makes of these results and
  \<open>allOrFailure\<close> what a batch of \<open>scanWorkspace\<close> makes of them.
\<close>

fun scanEach ::
  "Env \<Rightarrow> ScannerState \<Rightarrow> string list
   \<Rightarrow> (ScanFailure + DebugStatement list) list \<times> ScannerState" where
  "scanEach env st [] = ([], st)"
| "scanEach env st (fp # fps) =
     (case scanFile env st fp of
        (r, st1) \<Rightarrow> (case scanEach env st1 fps of (rs, st2) \<Rightarrow> (r # rs, st2)))"

fun caught ::
  "string list \<Rightarrow> (ScanFailure + DebugStatement list) list
   \<Rightarrow> DebugStatement list list \<times> ScanError list" where
  "caught (fp # fps) (Inr stmts # rs) =
     (case caught fps rs of (outs, errs) \<Rightarrow> (stmts # outs, errs))"
| "caught (fp # fps) (Inl e # rs) =
     (case caught fps rs of
        (outs, errs) \<Rightarrow> ([] # outs, \<lparr> errFilePath = fp, errCause = e \<rparr> # errs))"
| "caught _ _ = ([], [])"

fun allOrFailure :: "(ScanFailure + DebugStatement list) list \<Rightarrow> ScanFailure + DebugStatement list list" where
  "allOrFailure [] = Inr []"
| "allOrFailure (Inl e # rs) = Inl e"
| "allOrFailure (Inr stmts # rs) =
     (case allOrFailure rs of Inl e \<Rightarrow> Inl e | Inr outs \<Rightarrow> Inr (stmts # outs))"

text \<open>A file that the size gate of \<open>scanFile\<close> refuses.\<close>

definition tooLarge :: "Env \<Rightarrow> ScannerState \<Rightarrow> string \<Rightarrow> bool" where
  "tooLarge env st p \<longleftrightarrow>
     (case files env p of None \<Rightarrow> False | Some f \<Rightarrow> maxFileSize st < fileSize f)"

section \<open>The brace-balance check of the insertion command\<close>

datatype BalanceResult = Balanced | UnmatchedClosingAt nat | UnmatchedBraces

text \<open>
  The inner loop over the characters of one line: \<open>None\<close> when the balance drops below
  zero, else the balance at the end of the line.
\<close>

fun balanceLine :: "int \<Rightarrow> string \<Rightarrow> int option" where
  "balanceLine balance [] = Some balance"
| "balanceLine balance (ch # cs) =
     (let b = (if ch = CHR ''{'' then balance + 1
               else if ch = CHR ''}'' then balance - 1 else balance)
      in if b < 0 then None else balanceLine b cs)"

fun balanceLines :: "nat \<Rightarrow> int \<Rightarrow> string list \<Rightarrow> BalanceResult" where
  "balanceLines i balance [] = (if balance \<noteq> 0 then UnmatchedBraces else Balanced)"
| "balanceLines i balance (l # ls) =
     (case balanceLine balance l of
        None \<Rightarrow> UnmatchedClosingAt (i + 1)
      | Some b \<Rightarrow> balanceLines (Suc i) b ls)"

definition checkBraceBalance :: "string list \<Rightarrow> BalanceResult" where
  "checkBraceBalance document = balanceLines 0 0 document"

text \<open>
  The end of the insertion command, after the selection has been validated: the check
  comes first, and only a balanced document reaches the computation of the insertion
  point and the edit, which are the parameter \<open>planAndEdit\<close>. The result is the message
  shown, if any, and the document afterwards.
\<close>

definition insertAfterBalanceCheck ::
  "(string list \<Rightarrow> string list) \<Rightarrow> string list \<Rightarrow> BalanceResult \<times> string list" where
  "insertAfterBalanceCheck planAndEdit document =
     (case checkBraceBalance document of
        Balanced \<Rightarrow> (Balanced, planAndEdit document)
      | failure \<Rightarrow> (failure, document))"

section \<open>Clearing statements in the tree provider\<close>

record ProviderState =
  lastScanResult :: "ScanResult option"
  bookmarks :: "string set"

definition isBookmarked :: "ProviderState \<Rightarrow> string \<Rightarrow> bool" where
  "isBookmarked pv i \<longleftrightarrow> i \<in> bookmarks pv"

definition getAllStatements :: "ProviderState \<Rightarrow> DebugStatement list" where
  "getAllStatements pv = (case lastScanResult pv of None \<Rightarrow> [] | Some r \<Rightarrow> statements r)"

definition getStatementsByFile :: "ProviderState \<Rightarrow> string \<Rightarrow> DebugStatement list" where
  "getStatementsByFile pv fp = filter (\<lambda>s. filePath s = fp) (getAllStatements pv)"

definition deleteLine :: "string list \<Rightarrow> nat \<Rightarrow> string list" where
  \<comment> \<open>deleting a line with its line break; the last line has none, and stays as an
      empty line\<close>
  "deleteLine ls i = (if Suc i < length ls then take i ls @ drop (Suc i) ls else ls[i := []])"

text \<open>
  Documents are lists of lines, found by path. Opening a missing document and asking for
  a line that the document does not have both raise, and the \<open>catch\<close> turns that into
  \<open>False\<close>.
\<close>

definition clearStatement ::
  "ProviderState \<Rightarrow> (string \<Rightarrow> string list option) \<Rightarrow> DebugStatement
   \<Rightarrow> bool \<times> ProviderState \<times> (string \<Rightarrow> string list option)" where
  "clearStatement pv docs stmt =
     (if isBookmarked pv (stmtId stmt) then (False, pv, docs)
      else
        (case docs (filePath stmt) of
           None \<Rightarrow> (False, pv, docs)
         | Some ls \<Rightarrow>
             let lineIdx = int (lineNumber stmt) - 1 in
             if lineIdx < 0 \<or> int (length ls) \<le> lineIdx then (False, pv, docs)
             else (True, pv \<lparr> bookmarks := bookmarks pv - {stmtId stmt} \<rparr>,
                   docs(filePath stmt \<mapsto> deleteLine ls (nat lineIdx)))))"

definition clearOrder :: "DebugStatement \<Rightarrow> DebugStatement \<Rightarrow> int" where
  "clearOrder a b =
     (if lineNumber a \<noteq> lineNumber b then int (lineNumber b) - int (lineNumber a)
      else column b - column a)"

fun clearEach ::
  "ProviderState \<Rightarrow> (string \<Rightarrow> string list option) \<Rightarrow> DebugStatement list
   \<Rightarrow> nat \<times> ProviderState \<times> (string \<Rightarrow> string list option)" where
  "clearEach pv docs [] = (0, pv, docs)"
| "clearEach pv docs (s # ss) =
     (case clearStatement pv docs s of
        (done, pv1, docs1) \<Rightarrow>
          (case clearEach pv1 docs1 ss of
             (n, pv2, docs2) \<Rightarrow> ((if done then Suc n else n), pv2, docs2)))"

definition clearFileStatements ::
  "ProviderState \<Rightarrow> (string \<Rightarrow> string list option) \<Rightarrow> string
   \<Rightarrow> nat \<times> ProviderState \<times> (string \<Rightarrow> string list option)" where
  "clearFileStatements pv docs fp =
     clearEach pv docs
       (sortWith clearOrder
          (filter (\<lambda>s. \<not> isBookmarked pv (stmtId s)) (getStatementsByFile pv fp)))"

fun addToGroup ::
  "DebugStatement \<Rightarrow> (string \<times> DebugStatement list) list
   \<Rightarrow> (string \<times> DebugStatement list) list" where
  "addToGroup s [] = [(filePath s, [s])]"
| "addToGroup s ((k, arr) # groups) =
     (if k = filePath s then (k, arr @ [s]) # groups else (k, arr) # addToGroup s groups)"

definition groupByFile ::
  "ProviderState \<Rightarrow> DebugStatement list \<Rightarrow> (string \<times> DebugStatement list) list" where
  \<comment> \<open>the map \<open>byFile\<close>, in the order in which its keys were first set\<close>
  "groupByFile pv ss =
     foldl (\<lambda>groups s. if isBookmarked pv (stmtId s) then groups else addToGroup s groups) [] ss"

definition clearAllStatements ::
  "ProviderState \<Rightarrow> (string \<Rightarrow> string list option)
   \<Rightarrow> nat \<times> ProviderState \<times> (string \<Rightarrow> string list option)" where
  "clearAllStatements pv docs =
     clearEach pv docs
       (concat (map (\<lambda>(k, arr). sortWith clearOrder arr) (groupByFile pv (getAllStatements pv))))"

section \<open>What the brace-balance check is meant to report\<close>

text \<open>
  The net balance of a text is the number of its opening braces minus the number of its
  closing braces. Line \<open>j\<close> (counted from zero) closes an unopened brace when some prefix
  of the document that ends within line \<open>j\<close> has a negative net balance;
  \<open>unmatchedWithin\<close> is the same with a balance \<open>b\<close> carried in from earlier text.
\<close>

definition netBraces :: "string \<Rightarrow> int" where
  "netBraces s = int (count_list s CHR ''{'') - int (count_list s CHR ''}'')"

definition unmatchedWithin :: "int \<Rightarrow> string list \<Rightarrow> nat \<Rightarrow> bool" where
  "unmatchedWithin b doc j \<longleftrightarrow>
     (\<exists>k \<le> length (doc ! j). b + netBraces (concat (take j doc) @ take k (doc ! j)) < 0)"

definition closesUnopened :: "string list \<Rightarrow> nat \<Rightarrow> bool" where
  "closesUnopened doc j \<longleftrightarrow> unmatchedWithin 0 doc j"

section \<open>The order of the statements of a result\<close>

text \<open>
  The comparison of two paths is the host's; what the order of a result needs from it is
  that it is consistent: the sign turns with the arguments and "not greater" is
  transitive. A statement comes before another when its path compares smaller, or the
  paths compare equal and its line number is not greater.
\<close>

definition consistentComparison :: "(string \<Rightarrow> string \<Rightarrow> int) \<Rightarrow> bool" where
  "consistentComparison lc \<longleftrightarrow>
     (\<forall>a b. (lc a b < 0) = (0 < lc b a))
     \<and> (\<forall>a b c. lc a b \<le> 0 \<and> lc b c \<le> 0 \<longrightarrow> lc a c \<le> 0)"

definition orderedByPathThenLine ::
  "(string \<Rightarrow> string \<Rightarrow> int) \<Rightarrow> DebugStatement \<Rightarrow> DebugStatement \<Rightarrow> bool" where
  "orderedByPathThenLine lc a b \<longleftrightarrow>
     lc (filePath a) (filePath b) < 0
     \<or> (lc (filePath a) (filePath b) = 0 \<and> lineNumber a \<le> lineNumber b)"

section \<open>Lines on which a merge is located exactly\<close>



section \<open>Example inputs\<close>

definition idleState :: ScannerState where
  "idleState = \<lparr> scanInProgress = False, fileCache = Map.empty, scanResults = Map.empty,
                 maxFileSize = 100, watching = True, delivered = [] \<rparr>"

definition busyState :: ScannerState where
  "busyState = idleState \<lparr> scanInProgress := True \<rparr>"

fun codeUnitCompare :: "string \<Rightarrow> string \<Rightarrow> int" where
  \<comment> \<open>a comparison by code units, standing for the host's comparison in the examples\<close>
  "codeUnitCompare [] [] = 0"
| "codeUnitCompare [] (y # ys) = - 1"
| "codeUnitCompare (x # xs) [] = 1"
| "codeUnitCompare (x # xs) (y # ys) =
     (if (of_char x :: nat) < of_char y then - 1
      else if (of_char y :: nat) < of_char x then 1
      else codeUnitCompare xs ys)"

text \<open>
  A comparison with three traits of the collation that the host's comparison of strings
  uses: a soft hyphen is ignored, letters are first compared without regard to case, and
  on a tie lower case comes first. On everything else it compares code units.
\<close>

definition collationKey :: "string \<Rightarrow> string" where
  "collationKey s = toLowerCase (filter (\<lambda>c. c \<noteq> CHR 0xAD) s)"

definition caseKey :: "string \<Rightarrow> string" where
  "caseKey s = map (\<lambda>c. if toLowerChar c = c then CHR 0x00 else CHR 0x01)
                   (filter (\<lambda>c. c \<noteq> CHR 0xAD) s)"

definition collatingCompare :: "string \<Rightarrow> string \<Rightarrow> int" where
  "collatingCompare a b =
     (let c = codeUnitCompare (collationKey a) (collationKey b)
      in if c \<noteq> 0 then c else codeUnitCompare (caseKey a) (caseKey b))"

definition demoEnv :: Env where
  "demoEnv =
     \<lparr> files = [''/w/big.php'' \<mapsto> \<lparr> fileSize = 200, mtime = 1, fileText = Some ''echo 1;'' \<rparr>,
                ''/w/ok.php'' \<mapsto> \<lparr> fileSize = 13, mtime = 2,
                                  fileText = Some ''var_dump($x);'' \<rparr>],
       workspaceFolders = [''/w''],
       readdir = (\<lambda>d. if d = ''/w''
                       then Some [FileEntry ''big.php'', FileEntry ''notes.txt'',
                                  DirectoryEntry ''vendor'' (Some [FileEntry ''lib.php'']),
                                  FileEntry ''ok.php'']
                       else None),
       isExcluded = (\<lambda>p. False),
       relativeTo = (\<lambda>p. drop 3 p),
       localeCompare = codeUnitCompare,
       elapsed = 5 \<rparr>"

definition unbalancedDocument :: "string list" where
  \<comment> \<open>eleven lines; the closing brace on line 10 has no opening brace\<close>
  "unbalancedDocument =
     [''<?php'', ''function f() {'', ''  if ($a) {'', ''    g($a);'', ''  }'', ''}'',
      ''function h() {'', ''  k();'', ''}'', ''}'', ''echo 1;'']"

definition twoCommentsFile :: "string list" where
  \<comment> \<open>a block comment that starts behind another comment and spans three lines\<close>
  "twoCommentsFile = [''$a = 1; /* x */ /*'', ''die();'', ''*/'']"

definition twoCommentsText :: string where
  \<comment> \<open>the three lines of \<open>twoCommentsFile\<close> as the text of a file\<close>
  "twoCommentsText = ''$a = 1; /* x */ /*'' @ [CHR 0x0A] @ ''die();'' @ [CHR 0x0A] @ ''*/''"

definition commentedFile :: string where
  \<comment> \<open>five lines; a block comment spans lines 2 to 5\<close>
  "commentedFile =
     ''<?php'' @ [CHR 0x0A] @ ''/* start'' @ [CHR 0x0A] @ ''die();'' @ [CHR 0x0A]
     @ ''var_dump($x);'' @ [CHR 0x0A] @ ''end */''"

definition bookmarkText :: string where
  "bookmarkText = ''echo $a; print_r($b);'' @ [CHR 0x0A] @ ''var_dump($keep);''"

definition bookmarkDocs :: "string \<Rightarrow> string list option" where
  "bookmarkDocs = [''/w/a.php'' \<mapsto> splitLines [] bookmarkText]"

definition bookmarkProvider :: "string set \<Rightarrow> ProviderState" where
  \<comment> \<open>the provider after a scan of the file above, with the given bookmarks\<close>
  "bookmarkProvider marked =
     \<lparr> lastScanResult =
         Some \<lparr> statements = scanContent ''/w/a.php'' ''a.php'' bookmarkText,
                scannedFiles = 1, totalStatements = 3, errors = [], scanTime = 0 \<rparr>,
       bookmarks = marked \<rparr>"





text \<open>
  Two files whose names differ in case, and two whose names differ in a soft hyphen.
\<close>

definition hyphenPath :: string where
  "hyphenPath = ''/w/a'' @ [CHR 0xAD] @ ''b.php''"

definition collationEnv :: Env where
  "collationEnv =
     \<lparr> files = [''/w/B.php'' \<mapsto> \<lparr> fileSize = 7, mtime = 1, fileText = Some ''echo 1;'' \<rparr>,
                ''/w/a.php'' \<mapsto> \<lparr> fileSize = 7, mtime = 2, fileText = Some ''echo 2;'' \<rparr>,
                ''/w/ab.php'' \<mapsto> \<lparr> fileSize = 16, mtime = 3,
                    fileText = Some (''echo 3;'' @ [CHR 0x0A, CHR 0x0A] @ ''echo 5;'') \<rparr>,
                hyphenPath \<mapsto> \<lparr> fileSize = 8, mtime = 4,
                    fileText = Some ([CHR 0x0A] @ ''echo 4;'') \<rparr>],
       workspaceFolders = [''/w''],
       readdir = (\<lambda>d. if d = ''/w''
                       then Some [FileEntry ''B.php'', FileEntry ''a.php'', FileEntry ''ab.php'',
                                  FileEntry (''a'' @ [CHR 0xAD] @ ''b.php'')]
                       else None),
       isExcluded = (\<lambda>p. False),
       relativeTo = (\<lambda>p. drop 3 p),
       localeCompare = collatingCompare,
       elapsed = 5 \<rparr>"

text \<open>
  A line that opens a string literal with a double quote, a line that continues the
  string with an escaped quote (a backslash and the quote), a \<open>var_dump\<close> call and the
  closing quote, and the same line behind a backslash and a block comment.
\<close>

definition openStringLine :: string where
  "openStringLine = ''$s = '' @ [CHR 0x22] @ ''abc''"

definition escapedQuoteLine :: string where
  "escapedQuoteLine = [CHR 0x5C, CHR 0x22] @ ''var_dump($x);'' @ [CHR 0x22] @ '';''"

definition commentInStringLine :: string where
  "commentInStringLine = [CHR 0x5C] @ ''/* */'' @ escapedQuoteLine"

section \<open>Properties\<close>

subsection \<open>The re-entrancy guard\<close>

text \<open>
  C7. A call of \<open>scanWorkspace\<close> or \<open>scanFiles\<close> that finds a scan in progress returns the
  empty result (no statement, no scanned file, a total of zero, no error, a scan time of
  zero) and leaves the state of the engine as it is: no file is scanned, no cache entry
  is written and the progress flag stays set.
\<close>

theorem scan_in_progress_returns_empty:
  assumes "scanInProgress st"
  shows "scanWorkspace env st = (Inr emptyScanResult, st)
       \<and> scanFiles env st filePaths = (emptyScanResult, st)
       \<and> statements emptyScanResult = [] \<and> scannedFiles emptyScanResult = 0
       \<and> totalStatements emptyScanResult = 0 \<and> errors emptyScanResult = []
       \<and> scanTime emptyScanResult = 0"
  using assms by (simp add: scanWorkspace_def scanFiles_def emptyScanResult_def)

theorem scan_in_progress_returns_empty_witness:
  "scanInProgress busyState
   \<and> scanWorkspace demoEnv busyState = (Inr emptyScanResult, busyState)
   \<and> scanFiles demoEnv busyState [''/w/big.php'', ''/w/ok.php''] = (emptyScanResult, busyState)"
proof -
  have busy: "scanInProgress busyState"
    by (simp add: busyState_def)
  from scan_in_progress_returns_empty [OF busy, of demoEnv "[''/w/big.php'', ''/w/ok.php'']"] busy
  show ?thesis by blast
qed

subsection \<open>The brace-balance check\<close>

lemma netBraces_Nil: "netBraces [] = 0"
  by (simp add: netBraces_def)

lemma netBraces_Cons:
  "netBraces (c # cs) =
     (if c = CHR ''{'' then 1 else if c = CHR ''}'' then - 1 else 0) + netBraces cs"
  by (simp add: netBraces_def)

lemma netBraces_append: "netBraces (xs @ ys) = netBraces xs + netBraces ys"
  by (induction xs) (simp_all add: netBraces_Nil netBraces_Cons)

lemma balanceLine_None:
  "0 \<le> b \<Longrightarrow> balanceLine b l = None \<longleftrightarrow> (\<exists>k \<le> length l. b + netBraces (take k l) < 0)"
proof (induction l arbitrary: b)
  case Nil
  then show ?case by (simp add: netBraces_Nil)
next
  case (Cons c cs)
  let ?b = "b + (if c = CHR ''{'' then 1 else if c = CHR ''}'' then - 1 else 0)"
  show ?case
  proof (cases "?b < 0")
    case True
    then have "b + netBraces (take 1 (c # cs)) < 0"
      by (simp add: netBraces_Cons netBraces_Nil)
    then have "\<exists>k \<le> length (c # cs). b + netBraces (take k (c # cs)) < 0"
      by (intro exI[of _ 1]) simp
    with True show ?thesis by (auto simp: Let_def)
  next
    case False
    then have IH: "balanceLine ?b cs = None
                   \<longleftrightarrow> (\<exists>k \<le> length cs. ?b + netBraces (take k cs) < 0)"
      using Cons.IH[of ?b] by simp
    have "(\<exists>k \<le> length (c # cs). b + netBraces (take k (c # cs)) < 0)
          \<longleftrightarrow> (\<exists>k \<le> length cs. ?b + netBraces (take k cs) < 0)" (is "?L \<longleftrightarrow> ?R")
    proof
      assume ?L
      then obtain k where k: "k \<le> length (c # cs)" "b + netBraces (take k (c # cs)) < 0"
        by blast
      have "k \<noteq> 0"
      proof
        assume "k = 0"
        with k(2) Cons.prems show False by (simp add: netBraces_Nil)
      qed
      then obtain k' where "k = Suc k'" by (cases k) auto
      with k show ?R by (intro exI[of _ k']) (simp add: netBraces_Cons)
    next
      assume ?R
      then obtain k where "k \<le> length cs" "?b + netBraces (take k cs) < 0" by blast
      then show ?L by (intro exI[of _ "Suc k"]) (simp add: netBraces_Cons)
    qed
    with IH False show ?thesis by (auto simp: Let_def)
  qed
qed

lemma balanceLine_Some: "balanceLine b l = Some b' \<Longrightarrow> b' = b + netBraces l"
proof (induction l arbitrary: b)
  case Nil
  then show ?case by (simp add: netBraces_Nil)
next
  case (Cons c cs)
  let ?b = "b + (if c = CHR ''{'' then 1 else if c = CHR ''}'' then - 1 else 0)"
  from Cons.prems have "balanceLine ?b cs = Some b'"
    by (simp add: Let_def split: if_splits)
  from Cons.IH[OF this] show ?case by (simp add: netBraces_Cons)
qed

lemma balanceLine_Some_nonneg: "0 \<le> b \<Longrightarrow> balanceLine b l = Some b' \<Longrightarrow> 0 \<le> b'"
proof (induction l arbitrary: b)
  case Nil
  then show ?case by simp
next
  case (Cons c cs)
  let ?b = "b + (if c = CHR ''{'' then 1 else if c = CHR ''}'' then - 1 else 0)"
  from Cons.prems(2) have "\<not> ?b < 0" "balanceLine ?b cs = Some b'"
    by (simp_all add: Let_def split: if_splits)
  then show ?case using Cons.IH[of ?b] by simp
qed

lemma unmatchedWithin_0:
  "unmatchedWithin b (l # ls) 0 \<longleftrightarrow> (\<exists>k \<le> length l. b + netBraces (take k l) < 0)"
  by (simp add: unmatchedWithin_def)

lemma unmatchedWithin_Suc:
  "unmatchedWithin b (l # ls) (Suc j) \<longleftrightarrow> unmatchedWithin (b + netBraces l) ls j"
  by (simp add: unmatchedWithin_def netBraces_append add.assoc)

lemma balanceLines_unmatched:
  "0 \<le> b \<Longrightarrow> balanceLines i b ls = UnmatchedClosingAt n \<longleftrightarrow>
     (\<exists>j < length ls. n = i + j + 1 \<and> unmatchedWithin b ls j
        \<and> (\<forall>j' < j. \<not> unmatchedWithin b ls j'))"
proof (induction ls arbitrary: i b)
  case Nil
  then show ?case by simp
next
  case (Cons l ls)
  let ?first = "\<lambda>i b ls. \<exists>j < length ls. n = i + j + 1 \<and> unmatchedWithin b ls j
                   \<and> (\<forall>j' < j. \<not> unmatchedWithin b ls j')"
  show ?case
  proof (cases "balanceLine b l")
    case None
    then have c0: "unmatchedWithin b (l # ls) 0"
      using balanceLine_None[OF Cons.prems, of l] by (simp add: unmatchedWithin_0)
    have "?first i b (l # ls) \<longleftrightarrow> n = i + 1"
    proof
      assume "?first i b (l # ls)"
      then obtain j where j: "n = i + j + 1" "\<forall>j' < j. \<not> unmatchedWithin b (l # ls) j'"
        by blast
      with c0 have "j = 0" by (cases j) auto
      with j show "n = i + 1" by simp
    next
      assume "n = i + 1"
      with c0 show "?first i b (l # ls)" by (intro exI[of _ 0]) simp
    qed
    with None show ?thesis by auto
  next
    case (Some b')
    then have b': "b' = b + netBraces l" "0 \<le> b'"
      using balanceLine_Some balanceLine_Some_nonneg[OF Cons.prems] by auto
    from Some have n0: "\<not> unmatchedWithin b (l # ls) 0"
      using balanceLine_None[OF Cons.prems, of l] by (simp add: unmatchedWithin_0)
    have IH: "balanceLines (Suc i) b' ls = UnmatchedClosingAt n \<longleftrightarrow> ?first (Suc i) b' ls"
      using Cons.IH[OF b'(2)] by simp
    have "?first i b (l # ls) \<longleftrightarrow> ?first (Suc i) b' ls" (is "?L \<longleftrightarrow> ?R")
    proof
      assume ?L
      then obtain j where j: "j < length (l # ls)" "n = i + j + 1"
          "unmatchedWithin b (l # ls) j" "\<forall>j' < j. \<not> unmatchedWithin b (l # ls) j'"
        by blast
      with n0 obtain j0 where j0: "j = Suc j0" by (cases j) auto
      have "\<forall>j' < j0. \<not> unmatchedWithin b' ls j'"
      proof (intro allI impI)
        fix j' assume "j' < j0"
        then have "Suc j' < j" using j0 by simp
        with j(4) have "\<not> unmatchedWithin b (l # ls) (Suc j')" by blast
        then show "\<not> unmatchedWithin b' ls j'" by (simp add: unmatchedWithin_Suc b')
      qed
      with j j0 show ?R by (intro exI[of _ j0]) (simp add: unmatchedWithin_Suc b')
    next
      assume ?R
      then obtain j where j: "j < length ls" "n = Suc i + j + 1" "unmatchedWithin b' ls j"
          "\<forall>j' < j. \<not> unmatchedWithin b' ls j'"
        by blast
      have "\<forall>j' < Suc j. \<not> unmatchedWithin b (l # ls) j'"
      proof (intro allI impI)
        fix j' assume a: "j' < Suc j"
        show "\<not> unmatchedWithin b (l # ls) j'"
        proof (cases j')
          case 0
          with n0 show ?thesis by simp
        next
          case (Suc m)
          with a j(4) show ?thesis by (simp add: unmatchedWithin_Suc b')
        qed
      qed
      with j show ?L by (intro exI[of _ "Suc j"]) (simp add: unmatchedWithin_Suc b')
    qed
    with IH Some show ?thesis by simp
  qed
qed

lemma balanceLines_final:
  "0 \<le> b \<Longrightarrow> (\<forall>n. balanceLines i b ls \<noteq> UnmatchedClosingAt n) \<Longrightarrow>
     balanceLines i b ls
       = (if b + netBraces (concat ls) \<noteq> 0 then UnmatchedBraces else Balanced)"
proof (induction ls arbitrary: i b)
  case Nil
  then show ?case by (simp add: netBraces_Nil)
next
  case (Cons l ls)
  then obtain b' where s: "balanceLine b l = Some b'"
    by (cases "balanceLine b l") auto
  then have b': "b' = b + netBraces l" "0 \<le> b'"
    using balanceLine_Some balanceLine_Some_nonneg[OF Cons.prems(1)] by auto
  from Cons.prems(2) s have "\<forall>n. balanceLines (Suc i) b' ls \<noteq> UnmatchedClosingAt n"
    by simp
  from Cons.IH[OF b'(2) this] s b' show ?case
    by (simp add: netBraces_append add.assoc)
qed

lemma checkBraceBalance_unmatched:
  "checkBraceBalance document = UnmatchedClosingAt n \<longleftrightarrow>
     1 \<le> n \<and> n \<le> length document \<and> closesUnopened document (n - 1)
     \<and> (\<forall>j < n - 1. \<not> closesUnopened document j)"
proof -
  have "checkBraceBalance document = UnmatchedClosingAt n \<longleftrightarrow>
     (\<exists>j < length document. n = j + 1 \<and> closesUnopened document j
        \<and> (\<forall>j' < j. \<not> closesUnopened document j'))"
    using balanceLines_unmatched[of 0 0 document n]
    by (simp add: checkBraceBalance_def closesUnopened_def)
  also have "\<dots> \<longleftrightarrow> 1 \<le> n \<and> n \<le> length document \<and> closesUnopened document (n - 1)
     \<and> (\<forall>j < n - 1. \<not> closesUnopened document j)"
  proof
    assume "\<exists>j < length document. n = j + 1 \<and> closesUnopened document j
        \<and> (\<forall>j' < j. \<not> closesUnopened document j')"
    then show "1 \<le> n \<and> n \<le> length document \<and> closesUnopened document (n - 1)
     \<and> (\<forall>j < n - 1. \<not> closesUnopened document j)"
      by auto
  next
    assume a: "1 \<le> n \<and> n \<le> length document \<and> closesUnopened document (n - 1)
     \<and> (\<forall>j < n - 1. \<not> closesUnopened document j)"
    then show "\<exists>j < length document. n = j + 1 \<and> closesUnopened document j
        \<and> (\<forall>j' < j. \<not> closesUnopened document j')"
      by (intro exI[of _ "n - 1"]) auto
  qed
  finally show ?thesis .
qed

lemma checkBraceBalance_no_unmatched:
  "(\<forall>n. checkBraceBalance document \<noteq> UnmatchedClosingAt n)
   \<longleftrightarrow> (\<forall>j < length document. \<not> closesUnopened document j)"
proof
  assume a: "\<forall>n. checkBraceBalance document \<noteq> UnmatchedClosingAt n"
  show "\<forall>j < length document. \<not> closesUnopened document j"
  proof (rule ccontr)
    assume "\<not> (\<forall>j < length document. \<not> closesUnopened document j)"
    then have ex: "\<exists>j. j < length document \<and> closesUnopened document j" by blast
    define m where "m = (LEAST j. j < length document \<and> closesUnopened document j)"
    from ex have m: "m < length document \<and> closesUnopened document m"
      unfolding m_def by (rule LeastI_ex)
    have least: "\<forall>j < m. \<not> closesUnopened document j"
    proof (intro allI impI notI)
      fix j assume "j < m" "closesUnopened document j"
      with m have "j < length document \<and> closesUnopened document j" by simp
      then have "m \<le> j" unfolding m_def by (rule Least_le)
      with \<open>j < m\<close> show False by simp
    qed
    from m least have "checkBraceBalance document = UnmatchedClosingAt (m + 1)"
      by (simp add: checkBraceBalance_unmatched)
    with a show False by blast
  qed
next
  assume "\<forall>j < length document. \<not> closesUnopened document j"
  then show "\<forall>n. checkBraceBalance document \<noteq> UnmatchedClosingAt n"
    by (auto simp: checkBraceBalance_unmatched)
qed

text \<open>
  C8. The check that precedes the computation of the insertion point reports line \<open>n\<close>
  exactly when line \<open>n\<close> is the first line on which a closing brace has no matching
  opening brace; it reports unmatched braces exactly when there is no such line and the
  net balance of the whole document is not zero; and when it reports either, the command
  shows that message and leaves the document as it is, whatever the computation of the
  plan and the edit would have done.
\<close>

theorem brace_balance_guard:
  "(checkBraceBalance document = UnmatchedClosingAt n \<longleftrightarrow>
      1 \<le> n \<and> n \<le> length document \<and> closesUnopened document (n - 1)
      \<and> (\<forall>j < n - 1. \<not> closesUnopened document j))
   \<and> (checkBraceBalance document = UnmatchedBraces \<longleftrightarrow>
        (\<forall>j < length document. \<not> closesUnopened document j)
        \<and> netBraces (concat document) \<noteq> 0)
   \<and> (checkBraceBalance document \<noteq> Balanced \<longrightarrow>
        insertAfterBalanceCheck planAndEdit document
          = (checkBraceBalance document, document))"
proof (intro conjI)
  show "checkBraceBalance document = UnmatchedClosingAt n \<longleftrightarrow>
      1 \<le> n \<and> n \<le> length document \<and> closesUnopened document (n - 1)
      \<and> (\<forall>j < n - 1. \<not> closesUnopened document j)"
    by (rule checkBraceBalance_unmatched)
next
  show "checkBraceBalance document = UnmatchedBraces \<longleftrightarrow>
        (\<forall>j < length document. \<not> closesUnopened document j)
        \<and> netBraces (concat document) \<noteq> 0"
  proof (cases "\<forall>n. checkBraceBalance document \<noteq> UnmatchedClosingAt n")
    case True
    then have "checkBraceBalance document
        = (if netBraces (concat document) \<noteq> 0 then UnmatchedBraces else Balanced)"
      using balanceLines_final[of 0 0 document] by (simp add: checkBraceBalance_def)
    moreover from True have "\<forall>j < length document. \<not> closesUnopened document j"
      using checkBraceBalance_no_unmatched[of document] by blast
    ultimately show ?thesis by simp
  next
    case False
    then obtain m where m: "checkBraceBalance document = UnmatchedClosingAt m" by blast
    from False have "\<not> (\<forall>j < length document. \<not> closesUnopened document j)"
      using checkBraceBalance_no_unmatched[of document] by blast
    with m show ?thesis by simp
  qed
next
  show "checkBraceBalance document \<noteq> Balanced \<longrightarrow>
        insertAfterBalanceCheck planAndEdit document
          = (checkBraceBalance document, document)"
    by (cases "checkBraceBalance document") (simp_all add: insertAfterBalanceCheck_def)
qed

theorem brace_balance_guard_witness:
  "closesUnopened unbalancedDocument 9
   \<and> \<not> (\<exists>j < 9. closesUnopened unbalancedDocument j)
   \<and> insertAfterBalanceCheck (\<lambda>d. d @ [''var_dump($a);'']) unbalancedDocument
       = (UnmatchedClosingAt 10, unbalancedDocument)"
proof -
  have r: "checkBraceBalance unbalancedDocument = UnmatchedClosingAt 10"
    by code_simp
  from brace_balance_guard [of unbalancedDocument 10 "\<lambda>d. d @ [''var_dump($a);'']"] r
  show ?thesis by simp
qed

subsection \<open>Comments and strings\<close>

lemma scanLine_line_comment:
  "\<not> inBlockComment st \<Longrightarrow> startsWith (trim line) ''//'' \<or> startsWith (trim line) ''#'' \<Longrightarrow>
   fst (scanLine fp rel st ln line) = []"
  by (auto simp: scanLine_def Let_def)

lemma scanLine_inside_block_comment:
  "inBlockComment st \<Longrightarrow> indexOf line ''*/'' 0 = - 1 \<Longrightarrow> scanLine fp rel st ln line = ([], st)"
  by (simp add: scanLine_def Let_def)

lemma spec_examples_yield_nothing:
  \<open>scanContent ''/w/a.php'' ''a.php'' ''// var_dump($x);'' = []
   \<and> scanContent ''/w/a.php'' ''a.php'' ''$s = "var_dump($a)";'' = []
   \<and> scanContent ''/w/a.php'' ''a.php'' commentedFile = []\<close>
  by code_simp

text \<open>
  C1. A debug call inside a comment or a string literal is meant to give no statement.
  The scanner removes only the first block comment of a line: in the file
  \<^verbatim>\<open>$a = 1; /* x */ /*\<close>, \<^verbatim>\<open>die();\<close>, \<^verbatim>\<open>*/\<close> the second comment of line 1 is not
  seen to open, so that the \<open>die();\<close> inside the comment on line 2 is reported.
\<close>

theorem second_block_comment_is_scanned:
  "scanContent ''/w/a.php'' ''a.php'' twoCommentsText =
     [\<lparr> stmtId = ''/w/a.php:2:0'', filePath = ''/w/a.php'', relativePath = ''a.php'',
        lineNumber = 2, column = 0, content = ''die();'', stmtContext = ''die();'',
        stmtType = T_die, severity = Error \<rparr>]"
  by code_simp

subsection \<open>The pre-filter\<close>

text \<open>
  C6. The pre-filter is meant to reject only lines without a debug token.
  \<open>quickCheck\<close> asks for a debug token at the start of the line. The line
  \<^verbatim>\<open>$x = 1; var_dump($x);\<close> is rejected and nothing is reported, although the loop over
  its segments would report the call, as it does for the same two statements behind an
  \<open>echo\<close>.
\<close>

theorem quick_check_rejects_later_call:
  "\<not> quickCheck ''$x = 1; var_dump($x);''
   \<and> scanContent ''/w/a.php'' ''a.php'' ''$x = 1; var_dump($x);'' = []
   \<and> processSegments ''/w/a.php'' ''a.php'' 1 ''$x = 1; var_dump($x);'' 21
         (segmentsOf ''$x = 1; var_dump($x);'') =
       [\<lparr> stmtId = ''/w/a.php:1:8'', filePath = ''/w/a.php'', relativePath = ''a.php'',
          lineNumber = 1, column = 8, content = ''var_dump($x);'',
          stmtContext = ''$x = 1; var_dump($x);'', stmtType = T_var_dump,
          severity = Info \<rparr>]
   \<and> map content (scanContent ''/w/a.php'' ''a.php'' ''echo 0; $x = 1; var_dump($x);'')
       = [''echo 0;'', ''var_dump($x);'']"
  by code_simp

subsection \<open>A file over the size limit\<close>

text \<open>
  C2. A file over the size limit is meant to be recorded as a failure of that file and
  to leave the rest of the batch alone. With a limit of 100 and the files \<open>/w/big.php\<close>
  (size 200) and \<open>/w/ok.php\<close>, \<open>scanFiles\<close> records the failure of the first and reports
  the statement of the second, and \<open>scanWorkspace\<close> fails as a whole.
\<close>

theorem workspace_scan_fails_on_large_file:
  "fst (scanWorkspace demoEnv idleState) = Inl (FileTooLarge 200)
   \<and> errors (fst (scanFiles demoEnv idleState [''/w/big.php'', ''/w/ok.php'']))
       = [\<lparr> errFilePath = ''/w/big.php'', errCause = FileTooLarge 200 \<rparr>]
   \<and> map stmtId (statements (fst (scanFiles demoEnv idleState [''/w/big.php'', ''/w/ok.php''])))
       = [''/w/ok.php:1:0'']"
  by code_simp

subsection \<open>Bookmarks and clearing\<close>

lemma clearStatement_bookmarked:
  "isBookmarked pv (stmtId stmt) \<Longrightarrow> clearStatement pv docs stmt = (False, pv, docs)"
  by (simp add: clearStatement_def)

text \<open>
  C10. Clearing is meant to leave bookmarked statements in the file. A statement is
  cleared by deleting its whole line. The file has
  \<^verbatim>\<open>echo $a; print_r($b);\<close> on line 1 and \<^verbatim>\<open>var_dump($keep);\<close> on line 2. With the
  \<open>print_r\<close> bookmarked, clearing the file deletes line 1 for the \<open>echo\<close> and the bookmarked
  call with it; with the \<open>var_dump\<close> of line 2 bookmarked, the two deletions for line 1
  remove line 1 and then the line that took its place. Either way the file is left with
  one empty line.
\<close>

theorem clearing_deletes_bookmarked_statement:
  "map stmtId (getAllStatements (bookmarkProvider {})) =
     [''/w/a.php:1:0'', ''/w/a.php:1:9'', ''/w/a.php:2:0'']
   \<and> (case clearFileStatements (bookmarkProvider {''/w/a.php:1:9''}) bookmarkDocs ''/w/a.php'' of
         (n, pv, docs) \<Rightarrow> n = 2 \<and> docs ''/w/a.php'' = Some [[]])
   \<and> (case clearFileStatements (bookmarkProvider {''/w/a.php:2:0''}) bookmarkDocs ''/w/a.php'' of
         (n, pv, docs) \<Rightarrow> n = 2 \<and> docs ''/w/a.php'' = Some [[]])
   \<and> (case clearAllStatements (bookmarkProvider {''/w/a.php:2:0''}) bookmarkDocs of
         (n, pv, docs) \<Rightarrow> n = 2 \<and> docs ''/w/a.php'' = Some [[]])"
  by code_simp

subsection \<open>Severity\<close>

lemma isSpace_toLowerChar: "isSpace (toLowerChar c) = isSpace c"
proof -
  have r: "\<And>d. isSpace d \<longleftrightarrow> (of_char d :: nat) \<in> {9, 10, 11, 12, 13, 32, 160}"
  proof -
    fix d :: char
    show "isSpace d \<longleftrightarrow> (of_char d :: nat) \<in> {9, 10, 11, 12, 13, 32, 160}"
      unfolding isSpace_def by (cases d) simp
  qed
  show ?thesis
  proof (cases "toLowerChar c = c")
    case True
    then show ?thesis by simp
  next
    case False
    let ?n = "of_char c :: nat"
    from False
    have rng: "(65 \<le> ?n \<and> ?n \<le> 90) \<or> (192 \<le> ?n \<and> ?n \<le> 222 \<and> ?n \<noteq> 215)"
      and eq: "toLowerChar c = char_of (?n + 32)"
      by (auto simp: toLowerChar_def Let_def split: if_splits)
    from rng have "?n + 32 < 256" by auto
    then have "(of_char (toLowerChar c) :: nat) = ?n + 32"
      by (simp add: eq)
    with rng show ?thesis by (auto simp: r)
  qed
qed

lemma toLowerCase_dropWhile:
  "toLowerCase (dropWhile isSpace s) = dropWhile isSpace (toLowerCase s)"
  by (induction s) (simp_all add: toLowerCase_def isSpace_toLowerChar)

lemma toLowerCase_rev: "toLowerCase (rev s) = rev (toLowerCase s)"
  by (simp add: toLowerCase_def rev_map)

lemma toLowerCase_trim: "toLowerCase (trim s) = trim (toLowerCase s)"
  by (simp add: trim_def toLowerCase_rev toLowerCase_dropWhile)

lemma sublist_dropWhile:
  "t \<noteq> [] \<Longrightarrow> \<not> P (hd t) \<Longrightarrow> sublist t (dropWhile P s) = sublist t s"
proof (induction s)
  case Nil
  then show ?case by simp
next
  case (Cons x xs)
  show ?case
  proof (cases "P x")
    case True
    with Cons.prems have "\<not> prefix t (x # xs)"
      by (cases t) auto
    with True Cons show ?thesis by (simp add: sublist_Cons_right)
  next
    case False
    then show ?thesis by simp
  qed
qed

lemma includesStr_trim:
  assumes "t \<noteq> []" "\<not> isSpace (hd t)" "\<not> isSpace (last t)"
  shows "includesStr (trim s) t = includesStr s t"
proof -
  have "sublist t (rev (dropWhile isSpace (rev (dropWhile isSpace s))))
        = sublist (rev t) (dropWhile isSpace (rev (dropWhile isSpace s)))"
    by (simp add: sublist_rev_right)
  also have "\<dots> = sublist (rev t) (rev (dropWhile isSpace s))"
    using assms by (intro sublist_dropWhile) (simp_all add: hd_rev)
  also have "\<dots> = sublist t (dropWhile isSpace s)"
    by simp
  also have "\<dots> = sublist t s"
    using assms by (intro sublist_dropWhile) simp_all
  finally show ?thesis by (simp add: includesStr_def trim_def)
qed

lemma getStatementSeverity_trim: "getStatementSeverity (trim c) = getStatementSeverity c"
  by (simp add: getStatementSeverity_def Let_def toLowerCase_trim includesStr_trim isSpace_def)

lemma createDebugStatement_severity:
  "severity (createDebugStatement fp rel ln col c ctx ty (getStatementSeverity c))
   = getStatementSeverity
       (content (createDebugStatement fp rel ln col c ctx ty (getStatementSeverity c)))"
  by (simp add: createDebugStatement_def getStatementSeverity_trim)

lemma combinedStatement_severity:
  "severity (combinedStatement fp rel ln line n seg)
   = getStatementSeverity (content (combinedStatement fp rel ln line n seg))"
  by (simp add: combinedStatement_def Let_def createDebugStatement_severity)

lemma singleStatement_severity:
  "s \<in> set (singleStatement fp rel ln line n seg)
   \<Longrightarrow> severity s = getStatementSeverity (content s)"
  by (auto simp: singleStatement_def Let_def createDebugStatement_severity split: if_splits)

lemma processSegments_severity:
  "s \<in> set (processSegments fp rel ln line n segs)
   \<Longrightarrow> severity s = getStatementSeverity (content s)"
  by (induction fp rel ln line n segs rule: processSegments.induct)
     (auto simp: combinedStatement_severity singleStatement_severity split: if_splits)

lemma scanLine_severity:
  "s \<in> set (fst (scanLine fp rel st ln line))
   \<Longrightarrow> severity s = getStatementSeverity (content s)"
  by (auto simp: scanLine_def Let_def processSegments_severity split: if_splits prod.splits)

lemma scanLines_severity:
  "s \<in> set (scanLines fp rel st i ls) \<Longrightarrow> severity s = getStatementSeverity (content s)"
proof (induction ls arbitrary: st i)
  case Nil
  then show ?case by simp
next
  case (Cons l ls)
  obtain out st' where sl: "scanLine fp rel st (Suc i) l = (out, st')"
    by (cases "scanLine fp rel st (Suc i) l")
  with Cons.prems have "s \<in> set out \<or> s \<in> set (scanLines fp rel st' (Suc i) ls)"
    by simp
  then show ?case
  proof
    assume "s \<in> set out"
    with sl scanLine_severity[of s fp rel st "Suc i" l] show ?thesis by simp
  next
    assume "s \<in> set (scanLines fp rel st' (Suc i) ls)"
    then show ?thesis by (rule Cons.IH)
  qed
qed

lemma scanContent_severity:
  "s \<in> set (scanContent fp rel txt) \<Longrightarrow> severity s = getStatementSeverity (content s)"
  unfolding scanContent_def by (rule scanLines_severity)

text \<open>
  C5. The severity is meant to be \<open>Error\<close> for the calls that end the script (\<open>die\<close>,
  \<open>exit\<close>, \<open>dd\<close>), \<open>Warning\<close> for the logging calls and \<open>Info\<close> for every other
  statement, so that a plain \<open>var_dump\<close> is \<open>Info\<close>. The severity is computed from the
  content alone, by a test for substrings: \<^verbatim>\<open>var_dump($address);\<close> is a plain \<open>var_dump\<close>
  call with no call that ends the script in it, and its severity is \<open>Error\<close>, because
  \<open>address\<close> contains \<open>dd\<close>. The same call on \<open>$x\<close> is \<open>Info\<close>.
\<close>

theorem plain_var_dump_gets_error_severity:
  "map stmtType (scanContent ''/w/a.php'' ''a.php'' ''var_dump($address);'') = [T_var_dump]
   \<and> map content (scanContent ''/w/a.php'' ''a.php'' ''var_dump($address);'')
       = [''var_dump($address);'']
   \<and> map severity (scanContent ''/w/a.php'' ''a.php'' ''var_dump($address);'') = [Error]
   \<and> map severity (scanContent ''/w/a.php'' ''a.php'' ''var_dump($x);'') = [Info]"
  by code_simp

subsection \<open>The string state from line to line\<close>

lemma notin_slice: "q \<notin> set s \<Longrightarrow> q \<notin> set (slice s a b)"
  by (auto simp: slice_def Let_def dest!: in_set_takeD in_set_dropD)

lemma notin_sliceFrom: "q \<notin> set s \<Longrightarrow> q \<notin> set (sliceFrom s a)"
  by (simp add: sliceFrom_def notin_slice)

lemma sanitizeLoop_in_string:
  "q \<notin> set l \<Longrightarrow> sanitizeLoop True (Some q) e l = ([], True, Some q)"
  by (induction l arbitrary: e) auto

lemma quickCheck_Nil: "\<not> quickCheck []"
  by code_simp

lemma scanLine_in_string:
  assumes "inString st" "stringDelimiter st = Some q" "q \<notin> set line"
  shows "fst (scanLine fp rel st ln line) = []
       \<and> inString (snd (scanLine fp rel st ln line))
       \<and> stringDelimiter (snd (scanLine fp rel st ln line)) = Some q"
  using assms
  by (simp add: scanLine_def Let_def sanitizeLoop_in_string notin_slice notin_sliceFrom
        quickCheck_Nil)

lemma scanLines_in_string:
  "inString st \<Longrightarrow> stringDelimiter st = Some q \<Longrightarrow> \<forall>l \<in> set ls. q \<notin> set l \<Longrightarrow>
     scanLines fp rel st i ls = []
     \<and> inString (lineStateAfter fp rel st i ls)
     \<and> stringDelimiter (lineStateAfter fp rel st i ls) = Some q"
proof (induction ls arbitrary: st i)
  case Nil
  then show ?case by simp
next
  case (Cons l ls)
  from Cons.prems have ql: "q \<notin> set l" by simp
  note sl = scanLine_in_string[OF Cons.prems(1,2) ql, of fp rel "Suc i"]
  obtain out st' where eq: "scanLine fp rel st (Suc i) l = (out, st')"
    by (cases "scanLine fp rel st (Suc i) l")
  with sl have o: "out = []" and s1: "inString st'" and s2: "stringDelimiter st' = Some q"
    by simp_all
  from Cons.prems(3) have "\<forall>l \<in> set ls. q \<notin> set l" by simp
  from Cons.IH[OF s1 s2 this, of "Suc i"] eq o show ?case by simp
qed


lemma sanitizeLoop_plain:
  "\<forall>c \<in> set pre. c \<noteq> CHR 0x22 \<and> c \<noteq> CHR 0x27 \<and> c \<noteq> CHR ''#'' \<and> c \<noteq> CHR ''/'' \<Longrightarrow>
   sanitizeLoop False d e (pre @ rest)
   = (case sanitizeLoop False d e rest of (out, s, d') \<Rightarrow> (pre @ out, s, d'))"
  by (induction pre) (auto split: prod.splits)

lemma sanitizeLoop_opens:
  assumes "q = CHR 0x22 \<or> q = CHR 0x27"
    and "\<forall>c \<in> set pre. c \<noteq> CHR 0x22 \<and> c \<noteq> CHR 0x27 \<and> c \<noteq> CHR ''#'' \<and> c \<noteq> CHR ''/''"
    and "q \<notin> set body"
  shows "sanitizeLoop False d e (pre @ q # body) = (pre, True, Some q)"
  using assms by (auto simp: sanitizeLoop_plain sanitizeLoop_in_string)

lemma sanitizeLoop_closes:
  "q \<noteq> CHR 0x5C \<Longrightarrow> q \<notin> set pre \<Longrightarrow> CHR 0x5C \<notin> set pre \<Longrightarrow>
   sanitizeLoop True (Some q) False (pre @ q # rest) = sanitizeLoop False None False rest"
  by (induction pre) auto

lemma indexOfLoop_absent:
  "t \<noteq> [] \<Longrightarrow> hd t \<notin> set s \<Longrightarrow> indexOfLoop t i s = - 1"
proof (induction s arbitrary: i)
  case Nil
  then show ?case by simp
next
  case (Cons a s)
  from Cons.prems have "\<not> prefix t (a # s)"
    by (cases t) auto
  with Cons show ?case by simp
qed

lemma indexOf_absent: "t \<noteq> [] \<Longrightarrow> hd t \<notin> set s \<Longrightarrow> indexOf s t pos = - 1"
  unfolding indexOf_def Let_def
  by (rule indexOfLoop_absent) (auto dest: in_set_dropD)

lemma startsWith_trim: "startsWith (trim s) p \<Longrightarrow> p \<noteq> [] \<Longrightarrow> hd p \<in> set s"
proof -
  assume a: "startsWith (trim s) p" "p \<noteq> []"
  then have "hd p \<in> set (trim s)"
    by (cases p) (auto simp: startsWith_def prefix_def)
  then show ?thesis
    by (auto simp: trim_def dest!: set_dropWhileD)
qed

lemma scanLine_opens_string:
  assumes st: "\<not> inBlockComment st" "\<not> inString st"
    and q: "q = CHR 0x22 \<or> q = CHR 0x27"
    and pre: "\<forall>c \<in> set pre. c \<noteq> CHR 0x22 \<and> c \<noteq> CHR 0x27 \<and> c \<noteq> CHR ''#'' \<and> c \<noteq> CHR ''/''"
    and body: "q \<notin> set body" "CHR ''/'' \<notin> set body" "CHR ''#'' \<notin> set body"
  shows "inString (snd (scanLine fp rel st ln (pre @ q # body)))
       \<and> stringDelimiter (snd (scanLine fp rel st ln (pre @ q # body))) = Some q
       \<and> \<not> inBlockComment (snd (scanLine fp rel st ln (pre @ q # body)))"
proof -
  let ?line = "pre @ q # body"
  have noslash: "CHR ''/'' \<notin> set ?line" using q pre body by auto
  have nohash: "CHR ''#'' \<notin> set ?line" using q pre body by auto
  have i1: "indexOf ?line ''/*'' 0 = - 1"
    using noslash by (intro indexOf_absent) simp_all
  have t1: "\<not> startsWith (trim ?line) ''//''"
    using startsWith_trim[of ?line "''//''"] noslash by auto
  have t2: "\<not> startsWith (trim ?line) ''#''"
    using startsWith_trim[of ?line "''#''"] nohash by auto
  have san: "sanitizeLoop False (stringDelimiter st) False ?line = (pre, True, Some q)"
    using sanitizeLoop_opens[OF q pre body(1)] .
  show ?thesis
    unfolding scanLine_def Let_def
    using st i1 t1 t2 san by (simp split: if_splits)
qed

text \<open>
  C9. Inside a string literal that is left open at the end of a line, the following lines
  are meant to be string content up to the closing quote, and to give no statement. The
  string state does go from line to line, and a run of lines without the quote gives
  nothing (lemma \<open>scanLines_in_string\<close>). But the first block comment of a line is cut out
  before the string state is looked at, also inside a string. In the file with the lines
  \<open>openStringLine\<close> and \<open>commentInStringLine\<close> the second line has a backslash, a block
  comment, and then an escaped quote: cutting the comment puts the backslash in front of
  the one that escapes the quote, the quote is taken to close the string, and the
  \<open>var_dump\<close> behind it, which is inside the string literal, is reported. Without the
  comment the same line gives nothing, and the sanitizer alone keeps the whole line up to
  its last quote in the string.
\<close>

theorem comment_marker_inside_string_reopens_code:
  "snd (scanLine ''/w/a.php'' ''a.php'' initialLineState 1 openStringLine)
     = \<lparr> inBlockComment = False, inString = True, stringDelimiter = Some (CHR 0x22) \<rparr>
   \<and> scanContent ''/w/a.php'' ''a.php'' (openStringLine @ [CHR 0x0A] @ escapedQuoteLine) = []
   \<and> sanitizeLoop True (Some (CHR 0x22)) False commentInStringLine = ('';'', False, None)
   \<and> map lineNumber (scanContent ''/w/a.php'' ''a.php''
                        (openStringLine @ [CHR 0x0A] @ commentInStringLine)) = [2]
   \<and> map column (scanContent ''/w/a.php'' ''a.php''
                    (openStringLine @ [CHR 0x0A] @ commentInStringLine)) = [8]
   \<and> map content (scanContent ''/w/a.php'' ''a.php''
                     (openStringLine @ [CHR 0x0A] @ commentInStringLine)) = [''var_dump($x);'']
   \<and> map stmtType (scanContent ''/w/a.php'' ''a.php''
                      (openStringLine @ [CHR 0x0A] @ commentInStringLine)) = [T_var_dump]"
  by code_simp

subsection \<open>The merge of a debug call with a following exit\<close>





































text \<open>
  Segments are classified on the lowered text, but the token and the \<open>exit\<close> are looked
  for in the original line as they are written. With an upper-case \<open>EXIT\<close> the follower
  is consumed and the statement is the \<open>echo\<close> alone, of severity \<open>Info\<close>; with an
  upper-case \<open>ECHO\<close> as well the token is not found and the content is empty.
\<close>

lemma uppercase_merge_loses_content:
  "map stmtType (scanContent ''/w/a.php'' ''a.php'' ''echo 1; EXIT;'') = [T_echo]
   \<and> map content (scanContent ''/w/a.php'' ''a.php'' ''echo 1; EXIT;'') = [''echo 1;'']
   \<and> map severity (scanContent ''/w/a.php'' ''a.php'' ''echo 1; EXIT;'') = [Info]
   \<and> map stmtType (scanContent ''/w/a.php'' ''a.php'' ''ECHO 1; EXIT;'') = [T_echo]
   \<and> map content (scanContent ''/w/a.php'' ''a.php'' ''ECHO 1; EXIT;'') = [[]]
   \<and> map column (scanContent ''/w/a.php'' ''a.php'' ''ECHO 1; EXIT;'') = [- 1]
   \<and> map severity (scanContent ''/w/a.php'' ''a.php'' ''ECHO 1; EXIT;'') = [Info]"
  by code_simp

text \<open>
  What the hypotheses of the merge keep out: a line that the pre-filter rejects yields
  nothing; a \<open>die\<close> whose argument contains \<open>exit\<close> is classified as \<open>exit\<close> and located at
  the \<open>exit\<close> inside the argument; a token inside a comment before the call is taken for
  the call.
\<close>

lemma merge_needs_its_hypotheses:
  "scanContent ''/w/a.php'' ''a.php'' ''$x = 1; dd($x); exit;'' = []
   \<and> map stmtType (scanContent ''/w/a.php'' ''a.php'' ''die($exit_code); exit;'') = [T_exit]
   \<and> map content (scanContent ''/w/a.php'' ''a.php'' ''die($exit_code); exit;'')
       = [''exit_code); exit;'']
   \<and> map content (scanContent ''/w/a.php'' ''a.php'' ''/* dd(1); */ dd($x); exit;'')
       = [''dd(1); */ dd($x); exit;'']"
  by code_simp

subsection \<open>Scanning again\<close>

lemma scanFile_frame:
  "scanFile env st p = (r, st') \<Longrightarrow>
     maxFileSize st' = maxFileSize st \<and> scanInProgress st' = scanInProgress st
     \<and> watching st' = watching st \<and> delivered st' = delivered st
     \<and> (\<forall>q. q \<noteq> p \<longrightarrow> fileCache st' q = fileCache st q \<and> scanResults st' q = scanResults st q)"
  by (auto simp: scanFile_def Let_def split: option.splits if_splits)

lemma scanFile_again:
  "scanFile env st p = (r, st') \<Longrightarrow> scanFile env st' p = (r, st')"
  by (auto simp: scanFile_def Let_def getFileHash_def split: option.splits if_splits)

lemma scanFile_settled_local:
  assumes "scanFile env st q = (rq, st)"
    and "maxFileSize st2 = maxFileSize st" "fileCache st2 q = fileCache st q"
    and "scanResults st2 q = scanResults st q"
  shows "scanFile env st2 q = (rq, st2)"
proof (cases "files env q")
  case None
  with assms show ?thesis by (simp add: scanFile_def)
next
  case (Some f)
  show ?thesis
  proof (cases "maxFileSize st < fileSize f")
    case True
    with Some assms show ?thesis by (simp add: scanFile_def)
  next
    case False
    note small = this
    show ?thesis
    proof (cases "(case fileCache st q of None \<Rightarrow> False | Some c \<Rightarrow> cachedHash c = getFileHash f)")
      case True
      with Some small assms show ?thesis by (simp add: scanFile_def Let_def)
    next
      case False
      note miss = this
      show ?thesis
      proof (cases "fileText f")
        case None
        with Some small miss assms show ?thesis by (simp add: scanFile_def Let_def)
      next
        case (Some tx)
        let ?e = "\<lparr> cachedMtime = mtime f, cachedSize = fileSize f, cachedHash = getFileHash f \<rparr>"
        from \<open>files env q = Some f\<close> small miss Some assms(1)
        have "st \<lparr> fileCache := (fileCache st)(q \<mapsto> ?e),
                   scanResults := (scanResults st)(q \<mapsto> scanContent q (relativeTo env q) tx) \<rparr> = st"
          by (simp add: scanFile_def Let_def)
        then have "fileCache (st \<lparr> fileCache := (fileCache st)(q \<mapsto> ?e),
                   scanResults := (scanResults st)(q \<mapsto> scanContent q (relativeTo env q) tx) \<rparr>) q
                   = fileCache st q"
          by simp
        then have "fileCache st q = Some ?e" by simp
        with miss show ?thesis by simp
      qed
    qed
  qed
qed

lemma scanFile_keeps_settled:
  assumes "scanFile env st q = (rq, st)" "scanFile env st p = (r, st')"
  shows "scanFile env st' q = (rq, st')"
proof (cases "p = q")
  case True
  with assms show ?thesis by simp
next
  case False
  from scanFile_frame[OF assms(2)] False
  have "maxFileSize st' = maxFileSize st" "fileCache st' q = fileCache st q"
    "scanResults st' q = scanResults st q"
    by auto
  with assms(1) show ?thesis by (rule scanFile_settled_local)
qed

lemma scanEach_keeps_settled:
  "scanFile env st q = (rq, st) \<Longrightarrow> scanEach env st ps = (rs, st') \<Longrightarrow>
   scanFile env st' q = (rq, st')"
proof (induction ps arbitrary: st rs st')
  case Nil
  then show ?case by simp
next
  case (Cons p ps)
  obtain r s1 where f: "scanFile env st p = (r, s1)" by (cases "scanFile env st p")
  obtain rs1 s2 where e: "scanEach env s1 ps = (rs1, s2)" by (cases "scanEach env s1 ps")
  from Cons.prems(2) f e have "st' = s2" by simp
  from scanFile_keeps_settled[OF Cons.prems(1) f] have "scanFile env s1 q = (rq, s1)" .
  from Cons.IH[OF this e] \<open>st' = s2\<close> show ?case by simp
qed

lemma scanEach_again:
  "scanEach env st ps = (rs, st') \<Longrightarrow> scanEach env st' ps = (rs, st')"
proof (induction ps arbitrary: st rs st')
  case Nil
  then show ?case by simp
next
  case (Cons p ps)
  obtain r s1 where f: "scanFile env st p = (r, s1)" by (cases "scanFile env st p")
  obtain rs1 s2 where e: "scanEach env s1 ps = (rs1, s2)" by (cases "scanEach env s1 ps")
  from Cons.prems f e have eq: "st' = s2" "rs = r # rs1" by simp_all
  from scanFile_again[OF f] have "scanFile env s1 p = (r, s1)" .
  from scanEach_keeps_settled[OF this e] have a: "scanFile env s2 p = (r, s2)" .
  from Cons.IH[OF e] have b: "scanEach env s2 ps = (rs1, s2)" .
  from a b eq show ?case by simp
qed

lemma scanFile_flags:
  "scanFile env st p = (r, st') \<Longrightarrow>
   scanFile env (st \<lparr> scanInProgress := b, delivered := d \<rparr>) p
     = (r, st' \<lparr> scanInProgress := b, delivered := d \<rparr>)"
  by (auto simp: scanFile_def Let_def split: option.splits if_splits)

lemma scanEach_flags:
  "scanEach env st ps = (rs, st') \<Longrightarrow>
   scanEach env (st \<lparr> scanInProgress := b, delivered := d \<rparr>) ps
     = (rs, st' \<lparr> scanInProgress := b, delivered := d \<rparr>)"
proof (induction ps arbitrary: st rs st')
  case Nil
  then show ?case by simp
next
  case (Cons p ps)
  obtain r s1 where f: "scanFile env st p = (r, s1)" by (cases "scanFile env st p")
  obtain rs1 s2 where e: "scanEach env s1 ps = (rs1, s2)" by (cases "scanEach env s1 ps")
  from Cons.prems f e have eq: "st' = s2" "rs = r # rs1" by simp_all
  from scanFile_flags[OF f] Cons.IH[OF e] eq show ?case by simp
qed

lemma scanBatchCatching_scanEach:
  "scanBatchCatching env st ps = (case scanEach env st ps of (rs, st') \<Rightarrow> (caught ps rs, st'))"
  by (induction ps arbitrary: st) (auto split: prod.splits sum.splits)

lemma scanBatch_scanEach:
  "scanBatch env st ps = (case scanEach env st ps of (rs, st') \<Rightarrow> (allOrFailure rs, st'))"
  by (induction ps arbitrary: st) (auto split: prod.splits sum.splits)

lemma scanEach_settles:
  "scanEach env st ps = (rs, st') \<Longrightarrow> list_all2 (\<lambda>p r. scanFile env st' p = (r, st')) ps rs"
proof (induction ps arbitrary: st rs st')
  case Nil
  then show ?case by simp
next
  case (Cons p ps)
  obtain r s1 where f: "scanFile env st p = (r, s1)" by (cases "scanFile env st p")
  obtain rs1 s2 where e: "scanEach env s1 ps = (rs1, s2)" by (cases "scanEach env s1 ps")
  from Cons.prems f e have eq: "st' = s2" "rs = r # rs1" by simp_all
  from scanFile_again[OF f] have "scanFile env s1 p = (r, s1)" .
  from scanEach_keeps_settled[OF this e] have a: "scanFile env s2 p = (r, s2)" .
  from Cons.IH[OF e] a eq show ?case by simp
qed

lemma settled_scanEach:
  "list_all2 (\<lambda>p r. scanFile env s p = (r, s)) ps rs \<Longrightarrow> scanEach env s ps = (rs, s)"
  by (induction ps rs rule: list_all2_induct) simp_all

lemma scanFilesLoop_keeps_settled:
  "scanFile env st q = (rq, st) \<Longrightarrow> scanFilesLoop env st bs = (x, st') \<Longrightarrow>
   scanFile env st' q = (rq, st')"
proof (induction bs arbitrary: st x st')
  case Nil
  then show ?case by simp
next
  case (Cons b bs)
  obtain rs s1 where e: "scanEach env st b = (rs, s1)" by (cases "scanEach env st b")
  obtain y s2 where l: "scanFilesLoop env s1 bs = (y, s2)" by (cases "scanFilesLoop env s1 bs")
  from Cons.prems(2) e l have "st' = s2"
    by (simp add: scanBatchCatching_scanEach split: prod.splits)
  from scanEach_keeps_settled[OF Cons.prems(1) e] have "scanFile env s1 q = (rq, s1)" .
  from Cons.IH[OF this l] \<open>st' = s2\<close> show ?case by simp
qed

lemma scanFilesLoop_again:
  "scanFilesLoop env st bs = (x, st') \<Longrightarrow> scanFilesLoop env st' bs = (x, st')"
proof (induction bs arbitrary: st x st')
  case Nil
  then show ?case by simp
next
  case (Cons b bs)
  obtain rs s1 where e: "scanEach env st b = (rs, s1)" by (cases "scanEach env st b")
  obtain y s2 where l: "scanFilesLoop env s1 bs = (y, s2)" by (cases "scanFilesLoop env s1 bs")
  from Cons.prems e l have eq: "st' = s2"
    by (simp add: scanBatchCatching_scanEach split: prod.splits)
  have "list_all2 (\<lambda>p r. scanFile env s1 p = (r, s1)) b rs"
    using e by (rule scanEach_settles)
  then have "list_all2 (\<lambda>p r. scanFile env s2 p = (r, s2)) b rs"
    by (rule list_all2_mono) (rule scanFilesLoop_keeps_settled[OF _ l])
  then have e2: "scanEach env s2 b = (rs, s2)" by (rule settled_scanEach)
  from Cons.IH[OF l] have l2: "scanFilesLoop env s2 bs = (y, s2)" .
  from Cons.prems e l e2 l2 eq show ?case
    by (simp add: scanBatchCatching_scanEach split: prod.splits)
qed

lemma scanFilesLoop_flags:
  "scanFilesLoop env st bs = (x, st') \<Longrightarrow>
   scanFilesLoop env (st \<lparr> scanInProgress := b, delivered := d \<rparr>) bs
     = (x, st' \<lparr> scanInProgress := b, delivered := d \<rparr>)"
proof (induction bs arbitrary: st x st')
  case Nil
  then show ?case by simp
next
  case (Cons c bs)
  obtain rs s1 where e: "scanEach env st c = (rs, s1)" by (cases "scanEach env st c")
  obtain y s2 where l: "scanFilesLoop env s1 bs = (y, s2)" by (cases "scanFilesLoop env s1 bs")
  from Cons.prems e l scanEach_flags[OF e, where b = b and d = d] Cons.IH[OF l] show ?case
    by (simp add: scanBatchCatching_scanEach split: prod.splits)
qed

lemma scanWorkspaceLoop_keeps_settled:
  "scanFile env st q = (rq, st) \<Longrightarrow> scanWorkspaceLoop env st bs = (x, st') \<Longrightarrow>
   scanFile env st' q = (rq, st')"
proof (induction bs arbitrary: st x st')
  case Nil
  then show ?case by simp
next
  case (Cons b bs)
  obtain rs s1 where e: "scanEach env st b = (rs, s1)" by (cases "scanEach env st b")
  obtain y s2 where l: "scanWorkspaceLoop env s1 bs = (y, s2)"
    by (cases "scanWorkspaceLoop env s1 bs")
  from scanEach_keeps_settled[OF Cons.prems(1) e] have s1: "scanFile env s1 q = (rq, s1)" .
  from Cons.IH[OF s1 l] have s2: "scanFile env s2 q = (rq, s2)" .
  from Cons.prems(2) e l have "st' = s1 \<or> st' = s2"
    by (auto simp: scanBatch_scanEach split: prod.splits sum.splits)
  with s1 s2 show ?case by auto
qed

lemma scanWorkspaceLoop_again:
  "scanWorkspaceLoop env st bs = (x, st') \<Longrightarrow> scanWorkspaceLoop env st' bs = (x, st')"
proof (induction bs arbitrary: st x st')
  case Nil
  then show ?case by simp
next
  case (Cons b bs)
  obtain rs s1 where e: "scanEach env st b = (rs, s1)" by (cases "scanEach env st b")
  obtain y s2 where l: "scanWorkspaceLoop env s1 bs = (y, s2)"
    by (cases "scanWorkspaceLoop env s1 bs")
  have settled1: "list_all2 (\<lambda>p r. scanFile env s1 p = (r, s1)) b rs"
    using e by (rule scanEach_settles)
  show ?case
  proof (cases "allOrFailure rs")
    case (Inl err)
    with Cons.prems e have eq: "x = Inl err" "st' = s1"
      by (simp_all add: scanBatch_scanEach)
    from settled1 have "scanEach env s1 b = (rs, s1)" by (rule settled_scanEach)
    with Inl eq show ?thesis by (simp add: scanBatch_scanEach)
  next
    case (Inr outs)
    with Cons.prems e l have eq: "st' = s2"
      by (auto simp: scanBatch_scanEach split: prod.splits sum.splits)
    from settled1 have "list_all2 (\<lambda>p r. scanFile env s2 p = (r, s2)) b rs"
      by (rule list_all2_mono) (rule scanWorkspaceLoop_keeps_settled[OF _ l])
    then have e2: "scanEach env s2 b = (rs, s2)" by (rule settled_scanEach)
    from Cons.IH[OF l] have l2: "scanWorkspaceLoop env s2 bs = (y, s2)" .
    from Cons.prems e l e2 l2 eq Inr show ?thesis
      by (simp add: scanBatch_scanEach split: prod.splits sum.splits)
  qed
qed

lemma scanWorkspaceLoop_flags:
  "scanWorkspaceLoop env st bs = (x, st') \<Longrightarrow>
   scanWorkspaceLoop env (st \<lparr> scanInProgress := b, delivered := d \<rparr>) bs
     = (x, st' \<lparr> scanInProgress := b, delivered := d \<rparr>)"
proof (induction bs arbitrary: st x st')
  case Nil
  then show ?case by simp
next
  case (Cons c bs)
  obtain rs s1 where e: "scanEach env st c = (rs, s1)" by (cases "scanEach env st c")
  obtain y s2 where l: "scanWorkspaceLoop env s1 bs = (y, s2)"
    by (cases "scanWorkspaceLoop env s1 bs")
  from Cons.prems e l scanEach_flags[OF e, where b = b and d = d] Cons.IH[OF l] show ?case
    by (auto simp: scanBatch_scanEach split: prod.splits sum.splits)
qed

lemma scanFiles_result:
  "\<not> scanInProgress st \<Longrightarrow>
   scanFilesLoop env (st \<lparr> scanInProgress := True \<rparr>)
     (batches (filter (\<lambda>p. \<not> isExcluded env p)
                (filter (\<lambda>p. endsWith (toLowerCase p) ''.php'') paths)))
     = ((stmts, errs, n), s1) \<Longrightarrow>
   scanFiles env st paths
     = (\<lparr> statements = sortWith (compareStatements env) stmts, scannedFiles = n,
           totalStatements = length stmts, errors = errs, scanTime = elapsed env \<rparr>,
        finishScan s1 \<lparr> statements = sortWith (compareStatements env) stmts, scannedFiles = n,
           totalStatements = length stmts, errors = errs, scanTime = elapsed env \<rparr>)"
  by (simp add: scanFiles_def Let_def)

lemma scanWorkspace_result:
  "\<not> scanInProgress st \<Longrightarrow> workspaceFolders env \<noteq> [] \<Longrightarrow>
   scanWorkspaceLoop env (st \<lparr> scanInProgress := True \<rparr>)
     (batches (concat (map (collectFiles env) (workspaceFolders env))))
     = (Inr (stmts, n), s1) \<Longrightarrow>
   scanWorkspace env st
     = (Inr \<lparr> statements = sortWith (compareStatements env) stmts, scannedFiles = n,
           totalStatements = length stmts, errors = [], scanTime = elapsed env \<rparr>,
        finishScan s1 \<lparr> statements = sortWith (compareStatements env) stmts, scannedFiles = n,
           totalStatements = length stmts, errors = [], scanTime = elapsed env \<rparr>)"
  by (simp add: scanWorkspace_def Let_def)

lemma scanWorkspace_failure:
  "\<not> scanInProgress st \<Longrightarrow> workspaceFolders env \<noteq> [] \<Longrightarrow>
   scanWorkspaceLoop env (st \<lparr> scanInProgress := True \<rparr>)
     (batches (concat (map (collectFiles env) (workspaceFolders env))))
     = (Inl err, s1) \<Longrightarrow>
   scanWorkspace env st = (Inl err, s1 \<lparr> scanInProgress := False \<rparr>)"
  by (simp add: scanWorkspace_def Let_def)

lemma finishScan_restart:
  "(finishScan s r) \<lparr> scanInProgress := True \<rparr>
   = s \<lparr> scanInProgress := True,
         delivered := (if watching s then delivered s @ [r] else delivered s) \<rparr>"
  by (simp add: finishScan_def)

lemma finishScan_idle: "\<not> scanInProgress (finishScan s r)"
  by (simp add: finishScan_def)

lemma scanFiles_again:
  "fst (scanFiles env (snd (scanFiles env st paths)) paths) = fst (scanFiles env st paths)"
proof (cases "scanInProgress st")
  case True
  then show ?thesis by (simp add: scanFiles_def)
next
  case False
  let ?bs = "batches (filter (\<lambda>p. \<not> isExcluded env p)
                        (filter (\<lambda>p. endsWith (toLowerCase p) ''.php'') paths))"
  obtain stmts errs n s1 where
    l: "scanFilesLoop env (st \<lparr> scanInProgress := True \<rparr>) ?bs = ((stmts, errs, n), s1)"
    by (cases "scanFilesLoop env (st \<lparr> scanInProgress := True \<rparr>) ?bs") auto
  let ?result = "\<lparr> statements = sortWith (compareStatements env) stmts, scannedFiles = n,
                   totalStatements = length stmts, errors = errs, scanTime = elapsed env \<rparr>"
  note first = scanFiles_result[OF False l]
  from scanFilesLoop_again[OF l] have "scanFilesLoop env s1 ?bs = ((stmts, errs, n), s1)" .
  from scanFilesLoop_flags[OF this]
  have "scanFilesLoop env ((finishScan s1 ?result) \<lparr> scanInProgress := True \<rparr>) ?bs
        = ((stmts, errs, n), (finishScan s1 ?result) \<lparr> scanInProgress := True \<rparr>)"
    by (simp only: finishScan_restart)
  from scanFiles_result[OF finishScan_idle this] first show ?thesis
    by (simp only: fst_conv snd_conv)
qed

lemma scanWorkspace_again:
  "fst (scanWorkspace env (snd (scanWorkspace env st))) = fst (scanWorkspace env st)"
proof (cases "scanInProgress st \<or> workspaceFolders env = []")
  case True
  then show ?thesis by (auto simp: scanWorkspace_def)
next
  case False
  then have idle: "\<not> scanInProgress st" and ws: "workspaceFolders env \<noteq> []" by simp_all
  let ?bs = "batches (concat (map (collectFiles env) (workspaceFolders env)))"
  obtain x s1 where
    l: "scanWorkspaceLoop env (st \<lparr> scanInProgress := True \<rparr>) ?bs = (x, s1)"
    by (cases "scanWorkspaceLoop env (st \<lparr> scanInProgress := True \<rparr>) ?bs")
  from scanWorkspaceLoop_again[OF l] have again: "scanWorkspaceLoop env s1 ?bs = (x, s1)" .
  show ?thesis
  proof (cases x)
    case (Inl err)
    note first = scanWorkspace_failure[OF idle ws l[unfolded Inl]]
    have idle2: "\<not> scanInProgress (s1 \<lparr> scanInProgress := False \<rparr>)" by simp
    have "(s1 \<lparr> scanInProgress := False \<rparr>) \<lparr> scanInProgress := True \<rparr>
          = s1 \<lparr> scanInProgress := True, delivered := delivered s1 \<rparr>"
      by simp
    with scanWorkspaceLoop_flags[OF again[unfolded Inl], where b = True and d = "delivered s1"]
    have "scanWorkspaceLoop env ((s1 \<lparr> scanInProgress := False \<rparr>) \<lparr> scanInProgress := True \<rparr>) ?bs
          = (Inl err, s1 \<lparr> scanInProgress := True, delivered := delivered s1 \<rparr>)"
      by (simp only:)
    from scanWorkspace_failure[OF idle2 ws this] first show ?thesis
      by (simp only: fst_conv snd_conv)
  next
    case (Inr y)
    obtain stmts n where y: "y = (stmts, n)" by (cases y)
    let ?result = "\<lparr> statements = sortWith (compareStatements env) stmts, scannedFiles = n,
                     totalStatements = length stmts, errors = [], scanTime = elapsed env \<rparr>"
    note first = scanWorkspace_result[OF idle ws l[unfolded Inr y]]
    from scanWorkspaceLoop_flags[OF again[unfolded Inr y]]
    have "scanWorkspaceLoop env ((finishScan s1 ?result) \<lparr> scanInProgress := True \<rparr>) ?bs
          = (Inr (stmts, n), (finishScan s1 ?result) \<lparr> scanInProgress := True \<rparr>)"
      by (simp only: finishScan_restart)
    from scanWorkspace_result[OF finishScan_idle ws this] first show ?thesis
      by (simp only: fst_conv snd_conv)
  qed
qed

subsection \<open>The order of a result\<close>

lemma set_insertSorted: "set (insertSorted cmp x ys) = insert x (set ys)"
  by (induction ys) auto

lemma sorted_insertSorted:
  assumes tot: "\<And>a b. \<not> cmp a b < 0 \<Longrightarrow> le b a"
    and lt: "\<And>a b. cmp a b < 0 \<Longrightarrow> le a b"
    and trans: "\<And>a b c. le a b \<Longrightarrow> le b c \<Longrightarrow> le a c"
  shows "sorted_wrt le ys \<Longrightarrow> sorted_wrt le (insertSorted cmp x ys)"
proof (induction ys)
  case Nil
  then show ?case by simp
next
  case (Cons y ys)
  show ?case
  proof (cases "cmp x y < 0")
    case True
    then have xy: "le x y" by (rule lt)
    from Cons.prems have "\<forall>z \<in> set ys. le y z" by simp
    with xy have "\<forall>z \<in> set ys. le x z" by (blast intro: trans)
    with True xy Cons.prems show ?thesis by simp
  next
    case False
    then have "le y x" by (rule tot)
    with False Cons show ?thesis by (auto simp: set_insertSorted)
  qed
qed

lemma sorted_sortWith:
  assumes tot: "\<And>a b. \<not> cmp a b < 0 \<Longrightarrow> le b a"
    and lt: "\<And>a b. cmp a b < 0 \<Longrightarrow> le a b"
    and trans: "\<And>a b c. le a b \<Longrightarrow> le b c \<Longrightarrow> le a c"
  shows "sorted_wrt le (sortWith cmp xs)"
proof -
  have "sorted_wrt le acc \<Longrightarrow> sorted_wrt le (foldl (\<lambda>acc x. insertSorted cmp x acc) acc xs)" for acc
  proof (induction xs arbitrary: acc)
    case Nil
    then show ?case by simp
  next
    case (Cons x xs)
    from sorted_insertSorted[of cmp le, OF tot lt trans Cons.prems]
    have "sorted_wrt le (insertSorted cmp x acc)" .
    from Cons.IH[OF this] show ?case by simp
  qed
  from this[of "[]"] show ?thesis by (simp add: sortWith_def)
qed

lemma consistent_sym: "consistentComparison lc \<Longrightarrow> (lc a b = 0) = (lc b a = 0)"
proof -
  assume c: "consistentComparison lc"
  then have "(lc a b < 0) = (0 < lc b a)" "(lc b a < 0) = (0 < lc a b)"
    by (simp_all add: consistentComparison_def)
  then show ?thesis by linarith
qed

lemma ordered_total:
  assumes "consistentComparison (localeCompare env)" "\<not> compareStatements env a b < 0"
  shows "orderedByPathThenLine (localeCompare env) b a"
proof -
  let ?lc = "localeCompare env"
  from assms(1) have s: "(?lc (filePath a) (filePath b) < 0) = (0 < ?lc (filePath b) (filePath a))"
    "(?lc (filePath b) (filePath a) < 0) = (0 < ?lc (filePath a) (filePath b))"
    by (simp_all add: consistentComparison_def)
  from assms(2) s show ?thesis
    by (auto simp: compareStatements_def orderedByPathThenLine_def Let_def split: if_splits)
qed

lemma ordered_less:
  "compareStatements env a b < 0 \<Longrightarrow> orderedByPathThenLine (localeCompare env) a b"
  by (auto simp: compareStatements_def orderedByPathThenLine_def Let_def split: if_splits)

lemma ordered_trans:
  assumes c: "consistentComparison lc"
    and ab: "orderedByPathThenLine lc a b" and bc: "orderedByPathThenLine lc b c"
  shows "orderedByPathThenLine lc a c"
proof -
  let ?A = "filePath a" and ?B = "filePath b" and ?C = "filePath c"
  from c have tr: "\<And>x y z. lc x y \<le> 0 \<Longrightarrow> lc y z \<le> 0 \<Longrightarrow> lc x z \<le> 0"
    unfolding consistentComparison_def by blast
  from c have sy: "\<And>x y. (lc x y < 0) = (0 < lc y x)"
    unfolding consistentComparison_def by blast
  from ab have ab0: "lc ?A ?B \<le> 0" by (auto simp: orderedByPathThenLine_def)
  from bc have bc0: "lc ?B ?C \<le> 0" by (auto simp: orderedByPathThenLine_def)
  from tr[OF ab0 bc0] have ac0: "lc ?A ?C \<le> 0" .
  show ?thesis
  proof (cases "lc ?A ?C < 0")
    case True
    then show ?thesis by (simp add: orderedByPathThenLine_def)
  next
    case False
    with ac0 have ac: "lc ?A ?C = 0" by simp
    then have ca: "lc ?C ?A \<le> 0" using sy[of ?C ?A] sy[of ?A ?C] by linarith
    from tr[OF ca ab0] have "lc ?C ?B \<le> 0" .
    with bc0 have bce: "lc ?B ?C = 0" using sy[of ?B ?C] by linarith
    from tr[OF bc0 ca] have "lc ?B ?A \<le> 0" .
    with ab0 have abe: "lc ?A ?B = 0" using sy[of ?A ?B] by linarith
    from ab abe have "lineNumber a \<le> lineNumber b" by (simp add: orderedByPathThenLine_def)
    moreover from bc bce have "lineNumber b \<le> lineNumber c" by (simp add: orderedByPathThenLine_def)
    ultimately show ?thesis using ac by (simp add: orderedByPathThenLine_def)
  qed
qed

lemma sorted_statements:
  assumes "consistentComparison (localeCompare env)"
  shows "sorted_wrt (orderedByPathThenLine (localeCompare env))
           (sortWith (compareStatements env) stmts)"
proof (rule sorted_sortWith)
  fix a b
  assume "\<not> compareStatements env a b < 0"
  with assms show "orderedByPathThenLine (localeCompare env) b a"
    by (rule ordered_total)
next
  fix a b
  assume "compareStatements env a b < 0"
  then show "orderedByPathThenLine (localeCompare env) a b"
    by (rule ordered_less)
next
  fix a b c
  assume "orderedByPathThenLine (localeCompare env) a b" "orderedByPathThenLine (localeCompare env) b c"
  with assms show "orderedByPathThenLine (localeCompare env) a c" by (rule ordered_trans)
qed

lemma statements_scanFiles:
  "\<exists>stmts. statements (fst (scanFiles env st paths)) = sortWith (compareStatements env) stmts"
proof (cases "scanInProgress st")
  case True
  then have "statements (fst (scanFiles env st paths)) = sortWith (compareStatements env) []"
    by (simp add: scanFiles_def emptyScanResult_def sortWith_def)
  then show ?thesis by blast
next
  case False
  then show ?thesis
    by (auto simp: scanFiles_def Let_def split: prod.splits)
qed

lemma statements_scanWorkspace:
  "fst (scanWorkspace env st) = Inr r \<Longrightarrow>
   \<exists>stmts. statements r = sortWith (compareStatements env) stmts"
proof (cases "scanInProgress st")
  case True
  assume "fst (scanWorkspace env st) = Inr r"
  with True have "statements r = sortWith (compareStatements env) []"
    by (auto simp: scanWorkspace_def emptyScanResult_def sortWith_def)
  then show ?thesis by blast
next
  case False
  assume "fst (scanWorkspace env st) = Inr r"
  with False show ?thesis
    by (auto simp: scanWorkspace_def Let_def split: prod.splits sum.splits if_splits)
qed

lemma codeUnitCompare_sym: "(codeUnitCompare a b < 0) = (0 < codeUnitCompare b a)"
  by (induction a b rule: codeUnitCompare.induct) auto

lemma codeUnitCompare_trans:
  "codeUnitCompare a b \<le> 0 \<Longrightarrow> codeUnitCompare b c \<le> 0 \<Longrightarrow> codeUnitCompare a c \<le> 0"
proof (induction a b arbitrary: c rule: codeUnitCompare.induct)
  case 1
  then show ?case by simp
next
  case (2 y ys)
  then show ?case by (cases c) simp_all
next
  case (3 x xs)
  then show ?case by simp
next
  case (4 x xs y ys)
  show ?case
  proof (cases c)
    case Nil
    with 4 show ?thesis by simp
  next
    case (Cons z zs)
    with "4.prems" "4.IH"[of zs] show ?thesis
      by (auto split: if_splits)
  qed
qed

lemma consistent_codeUnitCompare: "consistentComparison codeUnitCompare"
  unfolding consistentComparison_def
  using codeUnitCompare_sym codeUnitCompare_trans by blast

lemma consistent_then:
  assumes c1: "consistentComparison c1" and c2: "consistentComparison c2"
  shows "consistentComparison
           (\<lambda>a b. if c1 (f a) (f b) \<noteq> 0 then c1 (f a) (f b) else c2 (g a) (g b))"
proof -
  let ?h = "\<lambda>a b. if c1 (f a) (f b) \<noteq> 0 then c1 (f a) (f b) else c2 (g a) (g b)"
  from c1 have sy1: "\<And>x y. (c1 x y < 0) = (0 < c1 y x)"
    and tr1: "\<And>x y z. c1 x y \<le> 0 \<Longrightarrow> c1 y z \<le> 0 \<Longrightarrow> c1 x z \<le> 0"
    unfolding consistentComparison_def by blast+
  from c2 have sy2: "\<And>x y. (c2 x y < 0) = (0 < c2 y x)"
    and tr2: "\<And>x y z. c2 x y \<le> 0 \<Longrightarrow> c2 y z \<le> 0 \<Longrightarrow> c2 x z \<le> 0"
    unfolding consistentComparison_def by blast+
  have z1: "\<And>x y. (c1 x y = 0) = (c1 y x = 0)"
    using consistent_sym[OF c1] .
  have sym: "(?h a b < 0) = (0 < ?h b a)" for a b
    using sy1[of "f a" "f b"] sy2[of "g a" "g b"] z1[of "f a" "f b"] by auto
  have trans: "?h a c \<le> 0" if ab: "?h a b \<le> 0" and bc: "?h b c \<le> 0" for a b c
  proof -
    from ab have ab0: "c1 (f a) (f b) \<le> 0" by (auto split: if_splits)
    from bc have bc0: "c1 (f b) (f c) \<le> 0" by (auto split: if_splits)
    from tr1[OF ab0 bc0] have ac0: "c1 (f a) (f c) \<le> 0" .
    show ?thesis
    proof (cases "c1 (f a) (f c) < 0")
      case True
      then show ?thesis by simp
    next
      case False
      with ac0 have ac: "c1 (f a) (f c) = 0" by simp
      then have ca: "c1 (f c) (f a) \<le> 0" using z1[of "f a" "f c"] by simp
      from tr1[OF ca ab0] have "c1 (f c) (f b) \<le> 0" .
      with bc0 have bce: "c1 (f b) (f c) = 0" using sy1[of "f b" "f c"] by linarith
      from tr1[OF bc0 ca] have "c1 (f b) (f a) \<le> 0" .
      with ab0 have abe: "c1 (f a) (f b) = 0" using sy1[of "f a" "f b"] by linarith
      from ab abe have "c2 (g a) (g b) \<le> 0" by simp
      moreover from bc bce have "c2 (g b) (g c) \<le> 0" by simp
      ultimately have "c2 (g a) (g c) \<le> 0" by (rule tr2)
      with ac show ?thesis by simp
    qed
  qed
  show ?thesis
    unfolding consistentComparison_def using sym trans by blast
qed

lemma consistent_collatingCompare: "consistentComparison collatingCompare"
proof -
  have "collatingCompare =
        (\<lambda>a b. if codeUnitCompare (collationKey a) (collationKey b) \<noteq> 0
                then codeUnitCompare (collationKey a) (collationKey b)
                else codeUnitCompare (caseKey a) (caseKey b))"
    by (intro ext) (simp add: collatingCompare_def Let_def)
  then show ?thesis
    using consistent_then[OF consistent_codeUnitCompare consistent_codeUnitCompare,
                          of collationKey caseKey]
    by simp
qed

text \<open>
  C3, as the code has it. The paths are compared by the host's comparison of strings,
  which is taken to be consistent. The statements of every result of \<open>scanFiles\<close> and of
  \<open>scanWorkspace\<close> are sorted in the order of that comparison and, for paths that compare
  equal, by ascending line number. The result is repeatable: a second scan of the same
  files, from the state that the first scan left (with its cache), returns the same
  result.
\<close>

theorem scan_results_sorted_and_repeatable:
  "(consistentComparison (localeCompare env) \<longrightarrow>
      sorted_wrt (orderedByPathThenLine (localeCompare env))
        (statements (fst (scanFiles env st paths))))
   \<and> (consistentComparison (localeCompare env) \<and> fst (scanWorkspace env st) = Inr r \<longrightarrow>
        sorted_wrt (orderedByPathThenLine (localeCompare env)) (statements r))
   \<and> fst (scanFiles env (snd (scanFiles env st paths)) paths) = fst (scanFiles env st paths)
   \<and> fst (scanWorkspace env (snd (scanWorkspace env st))) = fst (scanWorkspace env st)"
proof (intro conjI impI)
  assume c: "consistentComparison (localeCompare env)"
  obtain stmts where "statements (fst (scanFiles env st paths)) = sortWith (compareStatements env) stmts"
    using statements_scanFiles by blast
  with sorted_statements[OF c] show "sorted_wrt (orderedByPathThenLine (localeCompare env))
        (statements (fst (scanFiles env st paths)))"
    by simp
next
  assume a: "consistentComparison (localeCompare env) \<and> fst (scanWorkspace env st) = Inr r"
  then obtain stmts where "statements r = sortWith (compareStatements env) stmts"
    using statements_scanWorkspace by blast
  with sorted_statements[of env] a show "sorted_wrt (orderedByPathThenLine (localeCompare env)) (statements r)"
    by simp
next
  show "fst (scanFiles env (snd (scanFiles env st paths)) paths) = fst (scanFiles env st paths)"
    by (rule scanFiles_again)
next
  show "fst (scanWorkspace env (snd (scanWorkspace env st))) = fst (scanWorkspace env st)"
    by (rule scanWorkspace_again)
qed

theorem scan_results_sorted_and_repeatable_witness:
  "consistentComparison (localeCompare collationEnv)
   \<and> fst (scanWorkspace collationEnv idleState) =
       Inr (projr (fst (scanWorkspace collationEnv idleState)))
   \<and> map filePath (statements (fst (scanFiles collationEnv idleState [''/w/B.php'', ''/w/a.php''])))
       = [''/w/a.php'', ''/w/B.php'']
   \<and> sorted_wrt (orderedByPathThenLine collatingCompare)
        (statements (fst (scanFiles collationEnv idleState [''/w/B.php'', ''/w/a.php''])))
   \<and> map filePath (statements (projr (fst (scanWorkspace collationEnv idleState))))
       = [''/w/a.php'', ''/w/ab.php'', hyphenPath, ''/w/ab.php'', ''/w/B.php'']
   \<and> sorted_wrt (orderedByPathThenLine collatingCompare)
        (statements (projr (fst (scanWorkspace collationEnv idleState))))
   \<and> map filePath (statements (fst (scanFiles collationEnv
          (snd (scanFiles collationEnv idleState [''/w/B.php'', ''/w/a.php'']))
          [''/w/B.php'', ''/w/a.php''])))
       = [''/w/a.php'', ''/w/B.php'']
   \<and> map filePath (statements (projr (fst (scanWorkspace collationEnv
          (snd (scanWorkspace collationEnv idleState))))))
       = [''/w/a.php'', ''/w/ab.php'', hyphenPath, ''/w/ab.php'', ''/w/B.php'']"
proof -
  let ?paths = "[''/w/B.php'', ''/w/a.php'']"
  let ?r = "projr (fst (scanWorkspace collationEnv idleState))"
  have lc: "localeCompare collationEnv = collatingCompare"
    by (simp add: collationEnv_def)
  have c: "consistentComparison (localeCompare collationEnv)"
    unfolding lc by (rule consistent_collatingCompare)
  have "\<not> isl (fst (scanWorkspace collationEnv idleState))"
    by code_simp
  then have w: "fst (scanWorkspace collationEnv idleState) = Inr ?r"
    by (cases "fst (scanWorkspace collationEnv idleState)") simp_all
  have fs: "map filePath (statements (fst (scanFiles collationEnv idleState ?paths)))
       = [''/w/a.php'', ''/w/B.php'']"
    by code_simp
  have ws: "map filePath (statements ?r)
       = [''/w/a.php'', ''/w/ab.php'', hyphenPath, ''/w/ab.php'', ''/w/B.php'']"
    by code_simp
  note T = scan_results_sorted_and_repeatable
             [where env = collationEnv and st = idleState and paths = ?paths and r = ?r]
  from T[THEN conjunct1, THEN mp, OF c]
  have sorted1: "sorted_wrt (orderedByPathThenLine collatingCompare)
        (statements (fst (scanFiles collationEnv idleState ?paths)))"
    by (simp only: lc)
  from T[THEN conjunct2, THEN conjunct1, THEN mp, OF conjI[OF c w]]
  have sorted2: "sorted_wrt (orderedByPathThenLine collatingCompare) (statements ?r)"
    by (simp only: lc)
  from T[THEN conjunct2, THEN conjunct2, THEN conjunct1] fs
  have again1: "map filePath (statements (fst (scanFiles collationEnv
          (snd (scanFiles collationEnv idleState ?paths)) ?paths)))
       = [''/w/a.php'', ''/w/B.php'']"
    by (simp only:)
  from T[THEN conjunct2, THEN conjunct2, THEN conjunct2] ws
  have again2: "map filePath (statements (projr (fst (scanWorkspace collationEnv
          (snd (scanWorkspace collationEnv idleState))))))
       = [''/w/a.php'', ''/w/ab.php'', hyphenPath, ''/w/ab.php'', ''/w/B.php'']"
    by (simp only:)
  from c w fs sorted1 ws sorted2 again1 again2 show ?thesis by (simp only: simp_thms)
qed

text \<open>
  The claim C3 as written fails: the order is not the lexicographic one. With a
  comparison that looks at the letters before their case, \<open>/w/a.php\<close> comes before
  \<open>/w/B.php\<close>, which is smaller by code units. With a comparison that ignores a soft
  hyphen, two paths that differ in one compare equal, and the statements of the two
  files alternate by line number.
\<close>

theorem lexicographic_order_counterexample:
  "map filePath (statements (fst (scanFiles collationEnv idleState [''/w/B.php'', ''/w/a.php''])))
     = [''/w/a.php'', ''/w/B.php'']
   \<and> codeUnitCompare ''/w/B.php'' ''/w/a.php'' < 0
   \<and> \<not> sorted_wrt (orderedByPathThenLine codeUnitCompare)
          (statements (fst (scanFiles collationEnv idleState [''/w/B.php'', ''/w/a.php''])))
   \<and> map filePath (statements (fst (scanFiles collationEnv idleState [''/w/ab.php'', hyphenPath])))
     = [''/w/ab.php'', hyphenPath, ''/w/ab.php'']
   \<and> map lineNumber (statements (fst (scanFiles collationEnv idleState [''/w/ab.php'', hyphenPath])))
     = [1, 2, 3]
   \<and> hyphenPath \<noteq> ''/w/ab.php''"
  by code_simp

subsection \<open>Failures in a batch of \<open>scanFiles\<close>\<close>

text \<open>
  What \<open>scanFiles\<close> does with a file over the size limit, for every list of paths: the
  failure is recorded, and the statements of the result are those of a scan without the
  files over the limit.
\<close>

lemma scanEach_length: "scanEach env st ps = (rs, st') \<Longrightarrow> length rs = length ps"
  by (induction ps arbitrary: st rs st') (auto split: prod.splits)

lemma scanEach_append:
  "scanEach env st (xs @ ys) =
     (case scanEach env st xs of
        (r1, s1) \<Rightarrow> (case scanEach env s1 ys of (r2, s2) \<Rightarrow> (r1 @ r2, s2)))"
  by (induction xs arbitrary: st) (auto split: prod.splits)

lemma caught_append:
  "length xs = length rs \<Longrightarrow>
   caught (xs @ ys) (rs @ rs') =
     (fst (caught xs rs) @ fst (caught ys rs'), snd (caught xs rs) @ snd (caught ys rs'))"
proof (induction xs rs rule: list_induct2)
  case Nil
  then show ?case by simp
next
  case (Cons x xs r rs)
  then show ?case by (cases r) (auto split: prod.splits)
qed

lemma length_caught: "length xs = length rs \<Longrightarrow> length (fst (caught xs rs)) = length xs"
proof (induction xs rs rule: list_induct2)
  case Nil
  then show ?case by simp
next
  case (Cons x xs r rs)
  then show ?case by (cases r) (auto split: prod.splits)
qed

lemma scanFilesLoop_flat:
  "scanFilesLoop env st (batches xs) =
     (case scanEach env st xs of
        (rs, st') \<Rightarrow> ((concat (fst (caught xs rs)), snd (caught xs rs), length xs), st'))"
proof (induction xs arbitrary: st rule: batches.induct)
  case (1 xs)
  show ?case
  proof (cases "xs = []")
    case True
    then show ?thesis by (simp add: batches.simps)
  next
    case False
    let ?b = "take batchSize xs" and ?r = "drop batchSize xs"
    obtain r1 s1 where e1: "scanEach env st ?b = (r1, s1)" by (cases "scanEach env st ?b")
    obtain r2 s2 where e2: "scanEach env s1 ?r = (r2, s2)" by (cases "scanEach env s1 ?r")
    have l1: "length ?b = length r1" using scanEach_length[OF e1] by simp
    obtain o1 x1 where c1: "caught ?b r1 = (o1, x1)" by (cases "caught ?b r1")
    obtain o2 x2 where c2: "caught ?r r2 = (o2, x2)" by (cases "caught ?r r2")
    have split: "scanEach env st xs = (r1 @ r2, s2)"
      using scanEach_append[of env st ?b ?r] e1 e2 by simp
    have c: "caught xs (r1 @ r2) = (o1 @ o2, x1 @ x2)"
      using caught_append[OF l1, of ?r r2] c1 c2 by simp
    have "length o1 = length ?b"
      using length_caught[OF l1] c1 by simp
    then have len: "length o1 + length ?r = length xs" by simp
    have bs: "batches xs = ?b # batches ?r"
      using False by (subst batches.simps) simp
    from "1.IH"[OF False, of s1] e2 c2
    have ih: "scanFilesLoop env s1 (batches ?r) = ((concat o2, x2, length ?r), s2)"
      by simp
    have "scanFilesLoop env st (?b # batches ?r)
          = ((concat o1 @ concat o2, x1 @ x2, length o1 + length ?r), s2)"
      using e1 c1 ih by (simp add: scanBatchCatching_scanEach)
    with len have "scanFilesLoop env st (?b # batches ?r)
          = ((concat (o1 @ o2), x1 @ x2, length xs), s2)"
      by simp
    then show ?thesis
      unfolding bs split using c by simp
  qed
qed

lemma scanFile_tooLarge:
  "tooLarge env st p \<Longrightarrow>
   \<exists>n. scanFile env st p = (Inl (FileTooLarge n), st)"
  by (auto simp: scanFile_def tooLarge_def split: option.splits)

lemma tooLarge_after:
  "scanFile env st q = (r, st') \<Longrightarrow> tooLarge env st' p = tooLarge env st p"
  using scanFile_frame[of env st q r st'] by (auto simp: tooLarge_def split: option.splits)

lemma tooLarge_flag: "tooLarge env (st \<lparr> scanInProgress := b \<rparr>) p = tooLarge env st p"
  by (simp add: tooLarge_def split: option.splits)

lemma scanEach_without_large:
  "scanEach env st xs = (rs, st') \<Longrightarrow>
   \<exists>rs'. scanEach env st (filter (\<lambda>p. \<not> tooLarge env st p) xs) = (rs', st')
         \<and> concat (fst (caught (filter (\<lambda>p. \<not> tooLarge env st p) xs) rs'))
             = concat (fst (caught xs rs))"
proof (induction xs arbitrary: st rs st')
  case Nil
  then show ?case by simp
next
  case (Cons x xs)
  obtain r s1 where f: "scanFile env st x = (r, s1)" by (cases "scanFile env st x")
  obtain rs1 s2 where e: "scanEach env s1 xs = (rs1, s2)" by (cases "scanEach env s1 xs")
  from Cons.prems f e have eq: "rs = r # rs1" "st' = s2" by simp_all
  have same: "(\<lambda>p. \<not> tooLarge env s1 p) = (\<lambda>p. \<not> tooLarge env st p)"
    using tooLarge_after[OF f] by simp
  from Cons.IH[OF e] obtain rs' where
    ih: "scanEach env s1 (filter (\<lambda>p. \<not> tooLarge env st p) xs) = (rs', s2)"
        "concat (fst (caught (filter (\<lambda>p. \<not> tooLarge env st p) xs) rs'))
           = concat (fst (caught xs rs1))"
    unfolding same by blast
  show ?case
  proof (cases "tooLarge env st x")
    case True
    from scanFile_tooLarge[OF True] f obtain n where r: "r = Inl (FileTooLarge n)" "s1 = st"
      by auto
    with True ih eq show ?thesis by (auto split: prod.splits)
  next
    case False
    with f ih eq show ?thesis
      by (cases r) (auto split: prod.splits)
  qed
qed

lemma scanFiles_statements:
  assumes "\<not> scanInProgress st"
    and "targets = filter (\<lambda>p. \<not> isExcluded env p)
                     (filter (\<lambda>p. endsWith (toLowerCase p) ''.php'') paths)"
    and "scanEach env (st \<lparr> scanInProgress := True \<rparr>) targets = (rs, s1)"
  shows "statements (fst (scanFiles env st paths))
         = sortWith (compareStatements env) (concat (fst (caught targets rs)))"
  using assms(1,3) unfolding assms(2)
  by (simp add: scanFiles_def Let_def scanFilesLoop_flat)

lemma scanFiles_isolates_large_files:
  "statements (fst (scanFiles env st (filter (\<lambda>p. \<not> tooLarge env st p) paths)))
   = statements (fst (scanFiles env st paths))"
proof (cases "scanInProgress st")
  case True
  then show ?thesis by (simp add: scanFiles_def)
next
  case False
  let ?ok = "\<lambda>p. \<not> tooLarge env st p"
  let ?st = "st \<lparr> scanInProgress := True \<rparr>"
  let ?targets = "\<lambda>ps. filter (\<lambda>p. \<not> isExcluded env p)
                         (filter (\<lambda>p. endsWith (toLowerCase p) ''.php'') ps)"
  have t: "filter (\<lambda>p. \<not> tooLarge env ?st p) (?targets paths) = ?targets (filter ?ok paths)"
    by (induction paths) (auto simp: tooLarge_flag)
  obtain rs s1 where e: "scanEach env ?st (?targets paths) = (rs, s1)"
    by (cases "scanEach env ?st (?targets paths)")
  from scanEach_without_large[OF e] obtain rs' where
    e': "scanEach env ?st (filter (\<lambda>p. \<not> tooLarge env ?st p) (?targets paths)) = (rs', s1)"
    and c: "concat (fst (caught (filter (\<lambda>p. \<not> tooLarge env ?st p) (?targets paths)) rs'))
           = concat (fst (caught (?targets paths) rs))"
    by blast
  note a = scanFiles_statements[OF False refl e]
  note b = scanFiles_statements[OF False t e']
  from a b c show ?thesis by (simp only:)
qed


lemma scanFile_large:
  "files env p = Some f \<Longrightarrow> maxFileSize st < fileSize f \<Longrightarrow>
   scanFile env st p = (Inl (FileTooLarge (fileSize f)), st)"
  by (simp add: scanFile_def)

lemma scanEach_records_large:
  "scanEach env st xs = (rs, st') \<Longrightarrow> p \<in> set xs \<Longrightarrow> files env p = Some f \<Longrightarrow>
   maxFileSize st < fileSize f \<Longrightarrow>
   \<lparr> errFilePath = p, errCause = FileTooLarge (fileSize f) \<rparr> \<in> set (snd (caught xs rs))"
proof (induction xs arbitrary: st rs st')
  case Nil
  then show ?case by simp
next
  case (Cons x xs)
  obtain r s1 where f: "scanFile env st x = (r, s1)" by (cases "scanFile env st x")
  obtain rs1 s2 where e: "scanEach env s1 xs = (rs1, s2)" by (cases "scanEach env s1 xs")
  from Cons.prems(1) f e have eq: "rs = r # rs1" by simp
  show ?case
  proof (cases "x = p")
    case True
    with f scanFile_large[OF Cons.prems(3,4)] have "r = Inl (FileTooLarge (fileSize f))" by simp
    with True eq show ?thesis by (simp split: prod.splits)
  next
    case False
    with Cons.prems(2) have "p \<in> set xs" by simp
    moreover from scanFile_frame[OF f] Cons.prems(4) have "maxFileSize s1 < fileSize f" by simp
    ultimately have "\<lparr> errFilePath = p, errCause = FileTooLarge (fileSize f) \<rparr>
                     \<in> set (snd (caught xs rs1))"
      using Cons.IH[OF e] Cons.prems(3) by blast
    with eq show ?thesis by (cases r) (auto split: prod.splits)
  qed
qed

lemma scanFiles_records_large_file:
  assumes "\<not> scanInProgress st" "p \<in> set paths" "endsWith (toLowerCase p) ''.php''"
    "\<not> isExcluded env p" "files env p = Some f" "maxFileSize st < fileSize f"
  shows "\<lparr> errFilePath = p, errCause = FileTooLarge (fileSize f) \<rparr>
         \<in> set (errors (fst (scanFiles env st paths)))"
proof -
  let ?st = "st \<lparr> scanInProgress := True \<rparr>"
  let ?targets = "filter (\<lambda>p. \<not> isExcluded env p)
                    (filter (\<lambda>p. endsWith (toLowerCase p) ''.php'') paths)"
  obtain rs s1 where e: "scanEach env ?st ?targets = (rs, s1)"
    by (cases "scanEach env ?st ?targets")
  from assms have "p \<in> set ?targets" by simp
  moreover from assms(6) have "maxFileSize ?st < fileSize f" by simp
  ultimately have "\<lparr> errFilePath = p, errCause = FileTooLarge (fileSize f) \<rparr>
                   \<in> set (snd (caught ?targets rs))"
    using scanEach_records_large[OF e _ assms(5)] by blast
  moreover have "errors (fst (scanFiles env st paths)) = snd (caught ?targets rs)"
    using assms(1) e by (simp add: scanFiles_def Let_def scanFilesLoop_flat)
  ultimately show ?thesis by simp
qed

end
